theory Spec2Isabelle
  imports Main
begin

section \<open>Text\<close>

text \<open>
  A Python \<open>str\<close> is a sequence of Unicode code points, so text is a list of code points
  (natural numbers). \<open>py\<close> turns an ASCII literal of the script into that representation.
  The content of a file is the \<open>str\<close> that \<open>f.read()\<close> returns: the decoded text, with
  the line ends as the text mode of \<open>open\<close> delivers them.
\<close>

type_synonym str = "nat list"

definition py :: "string \<Rightarrow> str" where
  "py s = map of_char s"

section \<open>The two patterns\<close>

text \<open>
  Pattern 1 is \<^verbatim>\<open>super\(([0-9.]+),\s*(true|false)\s*\);\<close> and pattern 2 is
  \<^verbatim>\<open>super\(([0-9.]+)\);\<close>.

  \<open>is_numch\<close> is the character class \<^verbatim>\<open>[0-9.]\<close>: the ASCII digits and the full stop.
  \<open>is_space\<close> is \<^verbatim>\<open>\s\<close> of a \<open>str\<close> pattern: the code points for which
  \<open>str.isspace\<close> holds.
\<close>

definition is_numch :: "nat \<Rightarrow> bool" where
  "is_numch c \<longleftrightarrow> (48 \<le> c \<and> c \<le> 57) \<or> c = 46"

definition is_space :: "nat \<Rightarrow> bool" where
  "is_space c \<longleftrightarrow>
     (9 \<le> c \<and> c \<le> 13) \<or> (28 \<le> c \<and> c \<le> 32) \<or> c = 133 \<or> c = 160 \<or> c = 5760 \<or>
     (8192 \<le> c \<and> c \<le> 8202) \<or> c = 8232 \<or> c = 8233 \<or> c = 8239 \<or> c = 8287 \<or> c = 12288"

text \<open>\<open>expect l s\<close> matches the literal \<open>l\<close> at the start of \<open>s\<close> and returns what follows it.\<close>

fun expect :: "str \<Rightarrow> str \<Rightarrow> str option" where
  "expect [] s = Some s"
| "expect (l # ls) [] = None"
| "expect (l # ls) (c # cs) = (if l = c then expect ls cs else None)"

text \<open>
  The alternation \<^verbatim>\<open>(true|false)\<close>, tried in the order written; the result is the captured
  group and the text after it.
\<close>

definition bool_lit :: "str \<Rightarrow> (str \<times> str) option" where
  "bool_lit s =
     (case expect (py ''true'') s of
        Some r \<Rightarrow> Some (py ''true'', r)
      | None \<Rightarrow>
          (case expect (py ''false'') s of
             Some r \<Rightarrow> Some (py ''false'', r)
           | None \<Rightarrow> None))"

text \<open>
  A match of pattern 1 anchored at the start of \<open>s\<close>: the groups \<open>weight\<close> and \<open>enabled\<close>
  and the text after the match. The greedy repetitions take the longest run: the item
  that follows each of them (\<open>,\<close> or \<open>)\<close> after the digits, \<open>t\<close>, \<open>f\<close> or \<open>)\<close> after the
  white space) is outside the repeated class, so a shorter run can never be continued
  and backtracking finds nothing more.
\<close>

definition match_two :: "str \<Rightarrow> (str \<times> str \<times> str) option" where
  "match_two s =
     (case expect (py ''super('') s of
        None \<Rightarrow> None
      | Some s1 \<Rightarrow>
          let weight = takeWhile is_numch s1; s2 = dropWhile is_numch s1 in
          if weight = [] then None
          else
            (case expect (py '','') s2 of
               None \<Rightarrow> None
             | Some s3 \<Rightarrow>
                 (case bool_lit (dropWhile is_space s3) of
                    None \<Rightarrow> None
                  | Some (enabled, s4) \<Rightarrow>
                      (case expect (py '');'') (dropWhile is_space s4) of
                         None \<Rightarrow> None
                       | Some rest \<Rightarrow> Some (weight, enabled, rest)))))"

text \<open>A match of pattern 2 anchored at the start of \<open>s\<close>: the group \<open>weight\<close> and the rest.\<close>

definition match_one :: "str \<Rightarrow> (str \<times> str) option" where
  "match_one s =
     (case expect (py ''super('') s of
        None \<Rightarrow> None
      | Some s1 \<Rightarrow>
          let weight = takeWhile is_numch s1; s2 = dropWhile is_numch s1 in
          if weight = [] then None
          else
            (case expect (py '');'') s2 of
               None \<Rightarrow> None
             | Some rest \<Rightarrow> Some (weight, rest)))"

section \<open>The replacement functions\<close>

definition replace_two_params :: "str \<Rightarrow> str \<Rightarrow> str" where
  "replace_two_params weight enabled =
     py ''super();\<newline>        setWeight('' @ weight @
     py '');\<newline>        setEnabled('' @ enabled @ py '');''"

definition replace_one_param :: "str \<Rightarrow> str" where
  "replace_one_param weight =
     py ''super();\<newline>        setWeight('' @ weight @ py '');''"

section \<open>Substitution\<close>

lemma py_Nil [simp]: "py [] = []"
  by (simp add: py_def)

lemma py_Cons [simp]: "py (c # cs) = of_char c # py cs"
  by (simp add: py_def)

lemma expect_Some_iff: "expect l s = Some r \<longleftrightarrow> s = l @ r"
  by (induction l s rule: expect.induct) auto

lemma bool_lit_SomeD:
  "bool_lit s = Some (e, r) \<Longrightarrow> s = e @ r \<and> (e = py ''true'' \<or> e = py ''false'')"
  unfolding bool_lit_def
  by (auto simp: expect_Some_iff split: option.splits)

lemma match_two_SomeD:
  assumes "match_two s = Some (w, e, r)"
  shows "\<exists>ws1 ws2. s = py ''super('' @ w @ py '','' @ ws1 @ e @ ws2 @ py '');'' @ r \<and>
           w \<noteq> [] \<and> (\<forall>c\<in>set w. is_numch c) \<and> (\<forall>c\<in>set ws1. is_space c) \<and>
           (\<forall>c\<in>set ws2. is_space c) \<and> (e = py ''true'' \<or> e = py ''false'')"
proof -
  from assms obtain s1 s3 s4 where
    s1: "expect (py ''super('') s = Some s1" and
    w: "w = takeWhile is_numch s1" "w \<noteq> []" and
    s3: "expect (py '','') (dropWhile is_numch s1) = Some s3" and
    s4: "bool_lit (dropWhile is_space s3) = Some (e, s4)" and
    r: "expect (py '');'') (dropWhile is_space s4) = Some r"
    unfolding match_two_def
    by (auto simp: Let_def split: option.splits if_splits)
  have a: "s = py ''super('' @ s1"
    using s1 by (simp only: expect_Some_iff)
  have b: "s1 = w @ py '','' @ s3"
    using s3 w(1) takeWhile_dropWhile_id [of is_numch s1] by (simp add: expect_Some_iff)
  have c: "s3 = takeWhile is_space s3 @ e @ s4" and e: "e = py ''true'' \<or> e = py ''false''"
    using bool_lit_SomeD [OF s4] takeWhile_dropWhile_id [of is_space s3] by simp_all
  have d: "s4 = takeWhile is_space s4 @ py '');'' @ r"
    using r takeWhile_dropWhile_id [of is_space s4] by (simp add: expect_Some_iff)
  have "s = py ''super('' @ w @ py '','' @ takeWhile is_space s3 @ e @
              takeWhile is_space s4 @ py '');'' @ r"
    using a b c d by simp
  moreover have "\<forall>c\<in>set w. is_numch c"
    unfolding w(1) by (auto dest: set_takeWhileD)
  moreover have "\<forall>c\<in>set (takeWhile is_space s3). is_space c"
    by (auto dest: set_takeWhileD)
  moreover have "\<forall>c\<in>set (takeWhile is_space s4). is_space c"
    by (auto dest: set_takeWhileD)
  ultimately show ?thesis
    using w(2) e by blast
qed

lemma match_one_SomeD:
  assumes "match_one s = Some (w, r)"
  shows "s = py ''super('' @ w @ py '');'' @ r \<and> w \<noteq> [] \<and> (\<forall>c\<in>set w. is_numch c)"
proof -
  from assms obtain s1 where
    s1: "expect (py ''super('') s = Some s1" and
    w: "w = takeWhile is_numch s1" "w \<noteq> []" and
    r: "expect (py '');'') (dropWhile is_numch s1) = Some r"
    unfolding match_one_def
    by (auto simp: Let_def split: option.splits if_splits)
  have a: "s = py ''super('' @ s1"
    using s1 by (simp only: expect_Some_iff)
  have b: "s1 = w @ py '');'' @ r"
    using r w(1) takeWhile_dropWhile_id [of is_numch s1] by (simp add: expect_Some_iff)
  have "\<forall>c\<in>set w. is_numch c"
    unfolding w(1) by (auto dest: set_takeWhileD)
  then show ?thesis
    using a b w(2) by simp
qed

lemma match_two_shorter: "match_two s = Some (w, e, r) \<Longrightarrow> length r < length s"
  by (drule match_two_SomeD) auto

lemma match_one_shorter: "match_one s = Some (w, r) \<Longrightarrow> length r < length s"
  by (drule match_one_SomeD) auto

text \<open>
  \<open>re.sub(pattern, repl, content)\<close> scans from the left. Where the pattern matches, the
  value of the replacement function is emitted and the scan goes on after the match;
  elsewhere one character is copied and the scan moves by one. Neither pattern matches
  the empty string.
\<close>

function sub_two :: "str \<Rightarrow> str" where
  "sub_two [] = []"
| "sub_two (c # cs) =
     (case match_two (c # cs) of
        Some (weight, enabled, rest) \<Rightarrow> replace_two_params weight enabled @ sub_two rest
      | None \<Rightarrow> c # sub_two cs)"
  by pat_completeness auto
termination
  by (relation "measure length") (auto dest: match_two_shorter)

function sub_one :: "str \<Rightarrow> str" where
  "sub_one [] = []"
| "sub_one (c # cs) =
     (case match_one (c # cs) of
        Some (weight, rest) \<Rightarrow> replace_one_param weight @ sub_one rest
      | None \<Rightarrow> c # sub_one cs)"
  by pat_completeness auto
termination
  by (relation "measure length") (auto dest: match_one_shorter)

text \<open>The content of a file after both substitutions, pattern 1 first.\<close>

definition transform :: "str \<Rightarrow> str" where
  "transform content = sub_one (sub_two content)"

text \<open>The two substitutions in the other order, to compare with \<open>transform\<close>.\<close>

definition transform_reversed :: "str \<Rightarrow> str" where
  "transform_reversed content = sub_two (sub_one content)"

text \<open>\<open>occurs_two s\<close>: pattern 1 matches somewhere in \<open>s\<close>; \<open>occurs_one\<close> likewise for pattern 2.\<close>

fun occurs_two :: "str \<Rightarrow> bool" where
  "occurs_two [] = False"
| "occurs_two (c # cs) = (case match_two (c # cs) of Some m \<Rightarrow> True | None \<Rightarrow> occurs_two cs)"

fun occurs_one :: "str \<Rightarrow> bool" where
  "occurs_one [] = False"
| "occurs_one (c # cs) = (case match_one (c # cs) of Some m \<Rightarrow> True | None \<Rightarrow> occurs_one cs)"

text \<open>
  The numeric literal as the specification words it: digits that may contain a single
  decimal point.
\<close>

definition is_digit :: "nat \<Rightarrow> bool" where
  "is_digit c \<longleftrightarrow> 48 \<le> c \<and> c \<le> 57"

definition spec_numeric_literal :: "str \<Rightarrow> bool" where
  "spec_numeric_literal w \<longleftrightarrow>
     list_ex is_digit w \<and> list_all (\<lambda>c. is_digit c \<or> c = 46) w \<and> count_list w 46 \<le> 1"

section \<open>The run over the listed files\<close>

text \<open>
  A path is a \<open>str\<close>. Several paths can name one file (a hard link, a symbolic link,
  \<open>a\<close> and \<open>./a\<close>), and a write through one name changes what every other name reads.
  So the file system has two parts: \<open>lookup\<close> resolves a path to the file it names, or
  to nothing (then \<open>os.path.exists\<close> is false), and \<open>node_of\<close> gives what is stored for
  a file. \<open>contents\<close> is what \<open>f.read()\<close> returns, or \<open>None\<close> when opening, reading or
  decoding raises (a directory, a file without read permission, bytes that are not
  UTF-8); \<open>writable\<close> tells whether opening the file for writing and writing to it
  succeeds; a write replaces the whole content of the file, and a later read through
  any of its names returns the text written. The script creates and removes no file,
  so it never changes \<open>lookup\<close>. It catches no exception, so an error ends the run.
\<close>

type_synonym path = str

type_synonym file_id = nat

record node =
  contents :: "str option"
  writable :: bool

record filesystem =
  lookup :: "path \<rightharpoonup> file_id"
  node_of :: "file_id \<Rightarrow> node"

datatype error = ReadError path | WriteError path

text \<open>
  The state of a run: the file system, the arguments of the \<open>print\<close> calls so far,
  the \<open>f.write\<close> calls so far (path and text), and the counter of the script.
\<close>

record state =
  fs :: filesystem
  out :: "str list"
  writes :: "(path \<times> str) list"
  fixed_count :: nat

text \<open>The decimal digits of a number, as an f-string formats the counter.\<close>

function str_of_nat :: "nat \<Rightarrow> str" where
  "str_of_nat n = (if n < 10 then [48 + n] else str_of_nat (n div 10) @ [48 + n mod 10])"
  by pat_completeness auto
termination
  by (relation "measure id") auto

declare str_of_nat.simps [simp del]

text \<open>The body of the loop for one path.\<close>

definition process_file :: "path \<Rightarrow> state \<Rightarrow> error + state" where
  "process_file file_path st =
     (case lookup (fs st) file_path of
        None \<Rightarrow> Inr (st\<lparr>out := out st @ [py ''SKIP: '' @ file_path @ py '' not found'']\<rparr>)
      | Some k \<Rightarrow>
          let f = node_of (fs st) k in
          (case contents f of
             None \<Rightarrow> Inl (ReadError file_path)
           | Some original_content \<Rightarrow>
               let content = transform original_content in
               if content \<noteq> original_content then
                 if writable f then
                   Inr (st\<lparr>fs := (fs st)\<lparr>node_of :=
                                (node_of (fs st))(k := f\<lparr>contents := Some content\<rparr>)\<rparr>,
                           writes := writes st @ [(file_path, content)],
                           fixed_count := fixed_count st + 1,
                           out := out st @ [py ''FIXED: '' @ file_path]\<rparr>)
                 else Inl (WriteError file_path)
               else Inr (st\<lparr>out := out st @ [py ''NO CHANGE: '' @ file_path]\<rparr>)))"

text \<open>The loop.\<close>

fun process_all :: "path list \<Rightarrow> state \<Rightarrow> error + state" where
  "process_all [] st = Inr st"
| "process_all (file_path # rest) st =
     (case process_file file_path st of
        Inl e \<Rightarrow> Inl e
      | Inr st' \<Rightarrow> process_all rest st')"

text \<open>The script on a list of paths: the loop from the initial state, then the summary.\<close>

definition main :: "path list \<Rightarrow> filesystem \<Rightarrow> error + state" where
  "main files fs0 =
     (case process_all files \<lparr>fs = fs0, out = [], writes = [], fixed_count = 0\<rparr> of
        Inl e \<Rightarrow> Inl e
      | Inr st \<Rightarrow>
          Inr (st\<lparr>out := out st @
                 [py ''\<newline>Total files fixed: '' @ str_of_nat (fixed_count st)]\<rparr>))"

text \<open>The text on standard output: \<open>print\<close> ends each of its arguments with a line break.\<close>

definition console :: "state \<Rightarrow> str" where
  "console st = concat (map (\<lambda>line. line @ [10]) (out st))"

text \<open>
  The value of a string of decimal digits, to say which number a printed numeral
  denotes.
\<close>

definition decimal_value :: "str \<Rightarrow> nat" where
  "decimal_value s = foldl (\<lambda>a d. 10 * a + (d - 48)) 0 s"

text \<open>
  The three outcomes of the specification, the line printed for each, and the outcome of
  the \<open>i\<close>-th listed path told from the file system before the run: a path that names
  nothing is skipped; a file is fixed where the transformation changes its content and
  no earlier listed path names the same file; otherwise it is unchanged.
\<close>

datatype outcome = Skipped | Fixed | Unchanged

fun outcome_line :: "outcome \<Rightarrow> path \<Rightarrow> str" where
  "outcome_line Skipped p = py ''SKIP: '' @ p @ py '' not found''"
| "outcome_line Fixed p = py ''FIXED: '' @ p"
| "outcome_line Unchanged p = py ''NO CHANGE: '' @ p"

definition outcome_at :: "filesystem \<Rightarrow> path list \<Rightarrow> nat \<Rightarrow> outcome" where
  "outcome_at fs0 files i =
     (case lookup fs0 (files ! i) of
        None \<Rightarrow> Skipped
      | Some k \<Rightarrow>
          (case contents (node_of fs0 k) of
             None \<Rightarrow> Unchanged
           | Some c \<Rightarrow>
               if transform c \<noteq> c \<and> Some k \<notin> set (map (lookup fs0) (take i files)) then Fixed
               else Unchanged))"

text \<open>
  The transformed content of the file that a path names, and whether it differs from
  the content.
\<close>

definition new_text :: "filesystem \<Rightarrow> path \<Rightarrow> str" where
  "new_text fs0 p =
     (case lookup fs0 p of
        None \<Rightarrow> []
      | Some k \<Rightarrow> (case contents (node_of fs0 k) of None \<Rightarrow> [] | Some c \<Rightarrow> transform c))"

definition changed :: "filesystem \<Rightarrow> path \<Rightarrow> bool" where
  "changed fs0 p =
     (case lookup fs0 p of
        None \<Rightarrow> False
      | Some k \<Rightarrow>
          (case contents (node_of fs0 k) of None \<Rightarrow> False | Some c \<Rightarrow> transform c \<noteq> c))"

text \<open>The positions in the list whose outcome is \<open>Fixed\<close>.\<close>

definition fixed_indices :: "filesystem \<Rightarrow> path list \<Rightarrow> nat list" where
  "fixed_indices fs0 files = filter (\<lambda>i. outcome_at fs0 files i = Fixed) [0..<length files]"

text \<open>A node after the transformation of its content, and the file system after the
  transformation of the file that a path names.\<close>

definition transformed :: "node \<Rightarrow> node" where
  "transformed f = f\<lparr>contents := map_option transform (contents f)\<rparr>"

definition touch :: "filesystem \<Rightarrow> path \<Rightarrow> filesystem" where
  "touch fs0 p =
     (case lookup fs0 p of
        None \<Rightarrow> fs0
      | Some k \<Rightarrow> fs0\<lparr>node_of := (node_of fs0)(k := transformed (node_of fs0 k))\<rparr>)"

text \<open>
  The run ends normally when every listed path that names a file names one that can be
  read and, where the transformation changes its content, written.
\<close>

definition healthy :: "filesystem \<Rightarrow> path list \<Rightarrow> bool" where
  "healthy fs0 files \<longleftrightarrow>
     (\<forall>p\<in>set files. \<forall>k. lookup fs0 p = Some k \<longrightarrow>
        contents (node_of fs0 k) \<noteq> None \<and> (changed fs0 p \<longrightarrow> writable (node_of fs0 k)))"

text \<open>The list of files of the script.\<close>

definition target_files :: "path list" where
  "target_files =
    [py ''src/main/java/me/javavirtualenv/behavior/aquatic/AxolotlHuntingBehavior.java'',
     py ''src/main/java/me/javavirtualenv/behavior/aquatic/AxolotlPlayDeadBehavior.java'',
     py ''src/main/java/me/javavirtualenv/behavior/aquatic/CurrentRidingBehavior.java'',
     py ''src/main/java/me/javavirtualenv/behavior/aquatic/DolphinTreasureHuntBehavior.java'',
     py ''src/main/java/me/javavirtualenv/behavior/aquatic/DolphinWaveRidingBehavior.java'',
     py ''src/main/java/me/javavirtualenv/behavior/aquatic/GlowSquidPreyAttractionBehavior.java'',
     py ''src/main/java/me/javavirtualenv/behavior/aquatic/InkCloudBehavior.java'',
     py ''src/main/java/me/javavirtualenv/behavior/aquatic/PufferfishInflateBehavior.java'',
     py ''src/main/java/me/javavirtualenv/behavior/aquatic/SalmonUpstreamBehavior.java'',
     py ''src/main/java/me/javavirtualenv/behavior/aquatic/TadpoleMetamorphosisBehavior.java'',
     py ''src/main/java/me/javavirtualenv/behavior/aquatic/VerticalMigrationBehavior.java'',
     py ''src/main/java/me/javavirtualenv/behavior/feline/ClimbingBehavior.java'',
     py ''src/main/java/me/javavirtualenv/behavior/feline/CreeperDetectionBehavior.java'',
     py ''src/main/java/me/javavirtualenv/behavior/feline/CreepingBehavior.java'',
     py ''src/main/java/me/javavirtualenv/behavior/feline/FallDamageReductionBehavior.java'',
     py ''src/main/java/me/javavirtualenv/behavior/feline/GiftGivingBehavior.java'',
     py ''src/main/java/me/javavirtualenv/behavior/feline/HissBehavior.java'',
     py ''src/main/java/me/javavirtualenv/behavior/feline/PhantomRepelBehavior.java'',
     py ''src/main/java/me/javavirtualenv/behavior/feline/PlayBehavior.java'',
     py ''src/main/java/me/javavirtualenv/behavior/feline/PounceBehavior.java'',
     py ''src/main/java/me/javavirtualenv/behavior/feline/PurrBehavior.java'',
     py ''src/main/java/me/javavirtualenv/behavior/feline/QuietMovementBehavior.java'',
     py ''src/main/java/me/javavirtualenv/behavior/feline/RubAffectionBehavior.java'',
     py ''src/main/java/me/javavirtualenv/behavior/feline/SleepOnBlocksBehavior.java'',
     py ''src/main/java/me/javavirtualenv/behavior/feline/SqueezeThroughGapsBehavior.java'',
     py ''src/main/java/me/javavirtualenv/behavior/feline/StalkBehavior.java'',
     py ''src/main/java/me/javavirtualenv/behavior/frog/CroakingBehavior.java'',
     py ''src/main/java/me/javavirtualenv/behavior/frog/FrogJumpingBehavior.java'',
     py ''src/main/java/me/javavirtualenv/behavior/frog/FrogSwimmingBehavior.java'',
     py ''src/main/java/me/javavirtualenv/behavior/sniffer/SnifferSocialBehavior.java'']"

definition run_script :: "filesystem \<Rightarrow> error + state" where
  "run_script fs0 = main target_files fs0"

text \<open>
  A small run, used to show the theorems at work: \<open>a\<close> and \<open>l\<close> are two names of one
  file with a call to rewrite, \<open>b\<close> names nothing, \<open>c\<close> is a read-only file with nothing to
  rewrite, and \<open>e\<close> is another file with a call to rewrite.
\<close>

definition example_files :: "path list" where
  "example_files = [py ''a'', py ''b'', py ''c'', py ''l'', py ''e'']"

definition example_fs :: filesystem where
  "example_fs =
     \<lparr>lookup = [py ''a'' \<mapsto> 0, py ''c'' \<mapsto> 1, py ''l'' \<mapsto> 0, py ''e'' \<mapsto> 2],
      node_of = (\<lambda>k.
        if k = 0 then \<lparr>contents = Some (py ''super(1);''), writable = True\<rparr>
        else if k = 1 then \<lparr>contents = Some (py ''super();''), writable = False\<rparr>
        else \<lparr>contents = Some (py ''super(2, true);''), writable = True\<rparr>)\<rparr>"

text \<open>A run over twelve files, each with a call to rewrite, for a total of two digits.\<close>

definition many_files :: "path list" where
  "many_files = [py ''a'', py ''b'', py ''c'', py ''d'', py ''e'', py ''f'',
                 py ''g'', py ''h'', py ''i'', py ''j'', py ''k'', py ''l'']"

definition many_fs :: filesystem where
  "many_fs =
     \<lparr>lookup = (\<lambda>p. if p \<in> set many_files then Some (hd p) else None),
      node_of = (\<lambda>k. \<lparr>contents = Some (py ''super(1);''), writable = True\<rparr>)\<rparr>"

section \<open>Properties of the matchers and of the substitutions\<close>

lemma expect_append_fresh:
  "a \<notin> set l \<Longrightarrow> expect l (p @ a # t) = map_option (\<lambda>r. r @ a # t) (expect l p)"
  by (induction l p rule: expect.induct) auto

lemma takeWhile_append_stop:
  "\<not> P a \<Longrightarrow> takeWhile P (p @ a # t) = takeWhile P p"
  by (induction p) auto

lemma dropWhile_append_stop:
  "\<not> P a \<Longrightarrow> dropWhile P (p @ a # t) = dropWhile P p @ a # t"
  by (induction p) auto

lemma expect_false_append_su:
  "expect (py ''false'') (p @ 115 # 117 # t) =
     map_option (\<lambda>r. r @ 115 # 117 # t) (expect (py ''false'') p)"
proof (cases p)
  case Nil then show ?thesis by simp
next
  case p1: (Cons a p1)
  show ?thesis
  proof (cases p1)
    case Nil then show ?thesis using p1 by simp
  next
    case p2: (Cons b p2)
    show ?thesis
    proof (cases p2)
      case Nil then show ?thesis using p1 p2 by simp
    next
      case p3: (Cons c p3)
      show ?thesis
      proof (cases p3)
        case Nil then show ?thesis using p1 p2 p3 by simp
      next
        case p4: (Cons d p4)
        have "expect (py ''e'') (p4 @ 115 # 117 # t) =
                map_option (\<lambda>r. r @ 115 # 117 # t) (expect (py ''e'') p4)"
          by (rule expect_append_fresh) simp
        then show ?thesis using p1 p2 p3 p4 by simp
      qed
    qed
  qed
qed

lemma bool_lit_append_su:
  "bool_lit (p @ 115 # 117 # t) =
     map_option (\<lambda>(e, r). (e, r @ 115 # 117 # t)) (bool_lit p)"
proof -
  have "expect (py ''true'') (p @ 115 # 117 # t) =
          map_option (\<lambda>r. r @ 115 # 117 # t) (expect (py ''true'') p)"
    by (rule expect_append_fresh) simp
  then show ?thesis
    unfolding bool_lit_def
    by (simp only: expect_false_append_su split: option.splits) auto
qed

lemma match_two_append_su:
  assumes "p \<noteq> []"
  shows "match_two (p @ 115 # 117 # t) =
           map_option (\<lambda>(w, e, r). (w, e, r @ 115 # 117 # t)) (match_two p)"
proof -
  have n: "\<not> is_numch 115" and s: "\<not> is_space 115"
    by (simp_all add: is_numch_def is_space_def)
  from assms obtain a q where p: "p = a # q"
    by (cases p) auto
  show ?thesis
    unfolding match_two_def p
    by (simp add: expect_append_fresh takeWhile_append_stop dropWhile_append_stop
          bool_lit_append_su n s Let_def split: option.splits)
qed

lemma match_one_append_su:
  assumes "p \<noteq> []"
  shows "match_one (p @ 115 # 117 # t) =
           map_option (\<lambda>(w, r). (w, r @ 115 # 117 # t)) (match_one p)"
proof -
  have n: "\<not> is_numch 115"
    by (simp add: is_numch_def)
  from assms obtain a q where p: "p = a # q"
    by (cases p) auto
  show ?thesis
    unfolding match_one_def p
    by (simp add: expect_append_fresh takeWhile_append_stop dropWhile_append_stop
          n Let_def split: option.splits)
qed

lemma match_two_starts:
  assumes "match_two s = Some x"
  shows "\<exists>t. s = 115 # 117 # t"
proof -
  obtain w e r where "x = (w, e, r)" by (cases x)
  with assms match_two_SomeD [of s w e r] show ?thesis by auto
qed

lemma match_one_starts:
  assumes "match_one s = Some x"
  shows "\<exists>t. s = 115 # 117 # t"
proof -
  obtain w r where "x = (w, r)" by (cases x)
  with assms match_one_SomeD [of s w r] show ?thesis by auto
qed

lemma sub_two_append_su:
  assumes t: "t = 115 # 117 # t'"
  shows "sub_two (p @ t) = sub_two p @ sub_two t"
proof (induction p rule: sub_two.induct)
  case 1
  show ?case by simp
next
  case (2 c cs)
  have m: "match_two ((c # cs) @ t) =
             map_option (\<lambda>(w, e, r). (w, e, r @ t)) (match_two (c # cs))"
    unfolding t by (rule match_two_append_su) simp
  show ?case
  proof (cases "match_two (c # cs)")
    case None
    with m have "match_two (c # cs @ t) = None" by simp
    with None "2.IH"(1) show ?thesis by simp
  next
    case (Some x)
    obtain w e r where x: "x = (w, e, r)" by (cases x)
    with m Some have "match_two (c # cs @ t) = Some (w, e, r @ t)" by simp
    moreover have "sub_two (r @ t) = sub_two r @ sub_two t"
      using "2.IH"(2) Some x by simp
    ultimately show ?thesis using Some x by simp
  qed
qed

lemma sub_one_append_su:
  assumes t: "t = 115 # 117 # t'"
  shows "sub_one (p @ t) = sub_one p @ sub_one t"
proof (induction p rule: sub_one.induct)
  case 1
  show ?case by simp
next
  case (2 c cs)
  have m: "match_one ((c # cs) @ t) =
             map_option (\<lambda>(w, r). (w, r @ t)) (match_one (c # cs))"
    unfolding t by (rule match_one_append_su) simp
  show ?case
  proof (cases "match_one (c # cs)")
    case None
    with m have "match_one (c # cs @ t) = None" by simp
    with None "2.IH"(1) show ?thesis by simp
  next
    case (Some x)
    obtain w r where x: "x = (w, r)" by (cases x)
    with m Some have "match_one (c # cs @ t) = Some (w, r @ t)" by simp
    moreover have "sub_one (r @ t) = sub_one r @ sub_one t"
      using "2.IH"(2) Some x by simp
    ultimately show ?thesis using Some x by simp
  qed
qed

lemma match_two_not_s: "c \<noteq> 115 \<Longrightarrow> match_two (c # s) = None"
  by (simp add: match_two_def)

lemma match_two_not_su: "c \<noteq> 117 \<Longrightarrow> match_two (115 # c # s) = None"
  by (simp add: match_two_def)

lemma match_two_super_close: "match_two (115 # 117 # 112 # 101 # 114 # 40 # 41 # s) = None"
  by (simp add: match_two_def is_numch_def)

lemma match_one_not_s: "c \<noteq> 115 \<Longrightarrow> match_one (c # s) = None"
  by (simp add: match_one_def)

lemma match_one_not_su: "c \<noteq> 117 \<Longrightarrow> match_one (115 # c # s) = None"
  by (simp add: match_one_def)

lemma match_one_super_close: "match_one (115 # 117 # 112 # 101 # 114 # 40 # 41 # s) = None"
  by (simp add: match_one_def is_numch_def)

lemmas match_none = match_two_not_s match_two_not_su match_two_super_close
  match_one_not_s match_one_not_su match_one_super_close

lemma sub_two_skip: "115 \<notin> set u \<Longrightarrow> sub_two (u @ s) = u @ sub_two s"
  by (induction u) (auto simp: match_two_not_s)

lemma sub_one_skip: "115 \<notin> set u \<Longrightarrow> sub_one (u @ s) = u @ sub_one s"
  by (induction u) (auto simp: match_one_not_s)

lemma numch_no_s: "\<forall>c\<in>set w. is_numch c \<Longrightarrow> 115 \<notin> set w"
  by (auto simp: is_numch_def)

lemma space_no_s: "\<forall>c\<in>set w. is_space c \<Longrightarrow> 115 \<notin> set w"
  by (auto simp: is_space_def)

lemma sub_two_replace_two:
  assumes "\<forall>c\<in>set w. is_numch c" "e = py ''true'' \<or> e = py ''false''"
  shows "sub_two (replace_two_params w e @ s) = replace_two_params w e @ sub_two s"
  using assms(2) numch_no_s [OF assms(1)]
  by (auto simp: replace_two_params_def match_none sub_two_skip)

lemma sub_one_replace_two:
  assumes "\<forall>c\<in>set w. is_numch c" "e = py ''true'' \<or> e = py ''false''"
  shows "sub_one (replace_two_params w e @ s) = replace_two_params w e @ sub_one s"
  using assms(2) numch_no_s [OF assms(1)]
  by (auto simp: replace_two_params_def match_none sub_one_skip)

lemma sub_two_replace_one:
  assumes "\<forall>c\<in>set w. is_numch c"
  shows "sub_two (replace_one_param w @ s) = replace_one_param w @ sub_two s"
  using numch_no_s [OF assms]
  by (auto simp: replace_one_param_def match_none sub_two_skip)

lemma sub_one_replace_one:
  assumes "\<forall>c\<in>set w. is_numch c"
  shows "sub_one (replace_one_param w @ s) = replace_one_param w @ sub_one s"
  using numch_no_s [OF assms]
  by (auto simp: replace_one_param_def match_none sub_one_skip)

lemma takeWhile_all: "\<forall>c\<in>set w. P c \<Longrightarrow> \<not> P a \<Longrightarrow> takeWhile P (w @ a # s) = w"
  by (induction w) auto

lemma dropWhile_all: "\<forall>c\<in>set w. P c \<Longrightarrow> \<not> P a \<Longrightarrow> dropWhile P (w @ a # s) = a # s"
  by (induction w) auto

lemma match_two_intro:
  assumes w: "w \<noteq> []" "\<forall>c\<in>set w. is_numch c"
    and ws: "\<forall>c\<in>set ws1. is_space c" "\<forall>c\<in>set ws2. is_space c"
    and e: "e = py ''true'' \<or> e = py ''false''"
  shows "match_two (py ''super('' @ w @ py '','' @ ws1 @ e @ ws2 @ py '');'' @ r) = Some (w, e, r)"
proof -
  have n: "\<not> is_numch 44" and s: "\<not> is_space 116" "\<not> is_space 102" "\<not> is_space 41"
    by (simp_all add: is_numch_def is_space_def)
  have b: "bool_lit (e @ ws2 @ py '');'' @ r) = Some (e, ws2 @ py '');'' @ r)"
    using e by (auto simp: bool_lit_def)
  have d: "dropWhile is_space (ws1 @ e @ ws2 @ py '');'' @ r) = e @ ws2 @ py '');'' @ r"
    using e dropWhile_all [OF ws(1) s(1)] dropWhile_all [OF ws(1) s(2)] by auto
  have d2: "dropWhile is_space (ws2 @ py '');'' @ r) = py '');'' @ r"
    using dropWhile_all [OF ws(2) s(3)] by simp
  have t: "takeWhile is_numch (w @ py '','' @ ws1 @ e @ ws2 @ py '');'' @ r) = w"
    using takeWhile_all [OF w(2) n] by simp
  have t2: "dropWhile is_numch (w @ py '','' @ ws1 @ e @ ws2 @ py '');'' @ r)
             = py '','' @ ws1 @ e @ ws2 @ py '');'' @ r"
    using dropWhile_all [OF w(2) n] by simp
  have x: "\<And>l s. expect l (l @ s) = Some s"
    by (simp add: expect_Some_iff)
  show ?thesis
    unfolding match_two_def
    by (simp only: x t t2 d d2 b Let_def option.case prod.case w(1) if_False)
qed

lemma match_one_intro:
  assumes w: "w \<noteq> []" "\<forall>c\<in>set w. is_numch c"
  shows "match_one (py ''super('' @ w @ py '');'' @ r) = Some (w, r)"
proof -
  have n: "\<not> is_numch 41"
    by (simp_all add: is_numch_def)
  have t: "takeWhile is_numch (w @ py '');'' @ r) = w"
    using takeWhile_all [OF w(2) n] by simp
  have t2: "dropWhile is_numch (w @ py '');'' @ r) = py '');'' @ r"
    using dropWhile_all [OF w(2) n] by simp
  have x: "\<And>l s. expect l (l @ s) = Some s"
    by (simp add: expect_Some_iff)
  show ?thesis
    unfolding match_one_def
    by (simp only: x t t2 Let_def option.case prod.case w(1) if_False)
qed

lemma sub_two_match:
  "match_two s = Some (w, e, r) \<Longrightarrow> sub_two s = replace_two_params w e @ sub_two r"
  by (cases s) (auto simp: match_two_def)

lemma sub_one_match:
  "match_one s = Some (w, r) \<Longrightarrow> sub_one s = replace_one_param w @ sub_one r"
  by (cases s) (auto simp: match_one_def)

lemma sub_two_no_match:
  "match_two (c # cs) = None \<Longrightarrow> sub_two (c # cs) = c # sub_two cs"
  by simp

lemma sub_one_no_match:
  "match_one (c # cs) = None \<Longrightarrow> sub_one (c # cs) = c # sub_one cs"
  by simp

text \<open>The text of a match of one pattern holds no match of the other.\<close>

lemma match_one_comma:
  "\<forall>c\<in>set w. is_numch c \<Longrightarrow> match_one (py ''super('' @ w @ 44 # s) = None"
  using takeWhile_all [of w is_numch 44 s] dropWhile_all [of w is_numch 44 s]
  by (simp add: match_one_def is_numch_def)

lemma match_two_paren:
  "\<forall>c\<in>set w. is_numch c \<Longrightarrow> match_two (py ''super('' @ w @ 41 # s) = None"
  using takeWhile_all [of w is_numch 41 s] dropWhile_all [of w is_numch 41 s]
  by (simp add: match_two_def is_numch_def)

lemma sub_one_over_match_two:
  assumes w: "\<forall>c\<in>set w. is_numch c"
    and ws: "\<forall>c\<in>set ws1. is_space c" "\<forall>c\<in>set ws2. is_space c"
    and e: "e = py ''true'' \<or> e = py ''false''"
  shows "sub_one (py ''super('' @ w @ py '','' @ ws1 @ e @ ws2 @ py '');'' @ r)
           = py ''super('' @ w @ py '','' @ ws1 @ e @ ws2 @ py '');'' @ sub_one r"
proof -
  have a: "sub_one (py ''super('' @ w @ 44 # s) = py ''super('' @ w @ 44 # sub_one s" for s
    using match_one_comma [OF w, of s] numch_no_s [OF w]
    by (simp add: match_one_not_s sub_one_skip)
  have b: "sub_one (ws1 @ s) = ws1 @ sub_one s" for s
    using space_no_s [OF ws(1)] by (simp add: sub_one_skip)
  have c: "sub_one (ws2 @ s) = ws2 @ sub_one s" for s
    using space_no_s [OF ws(2)] by (simp add: sub_one_skip)
  have d: "sub_one (e @ s) = e @ sub_one s" for s
    using e by (auto simp: match_none)
  have f: "sub_one (py '');'' @ s) = py '');'' @ sub_one s" for s
    by (simp add: match_none)
  have "sub_one (py ''super('' @ w @ 44 # ws1 @ e @ ws2 @ py '');'' @ r)
           = py ''super('' @ w @ 44 # ws1 @ e @ ws2 @ py '');'' @ sub_one r"
    by (simp only: a b c d f)
  then show ?thesis by simp
qed

lemma sub_two_over_match_one:
  assumes w: "\<forall>c\<in>set w. is_numch c"
  shows "sub_two (py ''super('' @ w @ py '');'' @ r) = py ''super('' @ w @ py '');'' @ sub_two r"
proof -
  have a: "sub_two (py ''super('' @ w @ 41 # s) = py ''super('' @ w @ 41 # sub_two s" for s
    using match_two_paren [OF w, of s] numch_no_s [OF w]
    by (simp add: match_two_not_s sub_two_skip)
  have "sub_two (py ''super('' @ w @ 41 # 59 # r) = py ''super('' @ w @ 41 # 59 # sub_two r"
    by (simp only: a) (simp add: match_none)
  then show ?thesis by simp
qed

lemma match_two_stable:
  assumes f: "\<And>c cs. f (c # cs) = c # f cs \<or>
                (\<exists>t t'. c # cs = 115 # 117 # t \<and> f (c # cs) = 115 # 117 # t')"
    and f0: "f [] = []"
  shows "p \<noteq> [] \<Longrightarrow> match_two (p @ q) = None \<Longrightarrow> match_two (p @ f q) = None"
proof (induction q arbitrary: p)
  case Nil
  then show ?case by (simp add: f0)
next
  case (Cons c cs)
  from f [of c cs] show ?case
  proof
    assume "f (c # cs) = c # f cs"
    moreover have "match_two ((p @ [c]) @ f cs) = None"
      using Cons.prems by (intro Cons.IH) simp_all
    ultimately show ?thesis by simp
  next
    assume "\<exists>t t'. c # cs = 115 # 117 # t \<and> f (c # cs) = 115 # 117 # t'"
    then obtain t t' where t: "c # cs = 115 # 117 # t" "f (c # cs) = 115 # 117 # t'"
      by blast
    from Cons.prems have "match_two p = None"
      by (simp add: t(1) match_two_append_su)
    with Cons.prems(1) show ?thesis
      by (simp add: t(2) match_two_append_su)
  qed
qed

lemma match_one_stable:
  assumes f: "\<And>c cs. f (c # cs) = c # f cs \<or>
                (\<exists>t t'. c # cs = 115 # 117 # t \<and> f (c # cs) = 115 # 117 # t')"
    and f0: "f [] = []"
  shows "p \<noteq> [] \<Longrightarrow> match_one (p @ q) = None \<Longrightarrow> match_one (p @ f q) = None"
proof (induction q arbitrary: p)
  case Nil
  then show ?case by (simp add: f0)
next
  case (Cons c cs)
  from f [of c cs] show ?case
  proof
    assume "f (c # cs) = c # f cs"
    moreover have "match_one ((p @ [c]) @ f cs) = None"
      using Cons.prems by (intro Cons.IH) simp_all
    ultimately show ?thesis by simp
  next
    assume "\<exists>t t'. c # cs = 115 # 117 # t \<and> f (c # cs) = 115 # 117 # t'"
    then obtain t t' where t: "c # cs = 115 # 117 # t" "f (c # cs) = 115 # 117 # t'"
      by blast
    from Cons.prems have "match_one p = None"
      by (simp add: t(1) match_one_append_su)
    with Cons.prems(1) show ?thesis
      by (simp add: t(2) match_one_append_su)
  qed
qed

lemma sub_two_local:
  "sub_two (c # cs) = c # sub_two cs \<or>
     (\<exists>t t'. c # cs = 115 # 117 # t \<and> sub_two (c # cs) = 115 # 117 # t')"
proof (cases "match_two (c # cs)")
  case None
  then show ?thesis by simp
next
  case (Some x)
  obtain w e r where x: "x = (w, e, r)" by (cases x)
  from match_two_starts [OF Some] obtain t where "c # cs = 115 # 117 # t" by blast
  moreover have "\<exists>t'. sub_two (c # cs) = 115 # 117 # t'"
    using Some x by (simp add: replace_two_params_def)
  ultimately show ?thesis by blast
qed

lemma sub_one_local:
  "sub_one (c # cs) = c # sub_one cs \<or>
     (\<exists>t t'. c # cs = 115 # 117 # t \<and> sub_one (c # cs) = 115 # 117 # t')"
proof (cases "match_one (c # cs)")
  case None
  then show ?thesis by simp
next
  case (Some x)
  obtain w r where x: "x = (w, r)" by (cases x)
  from match_one_starts [OF Some] obtain t where "c # cs = 115 # 117 # t" by blast
  moreover have "\<exists>t'. sub_one (c # cs) = 115 # 117 # t'"
    using Some x by (simp add: replace_one_param_def)
  ultimately show ?thesis by blast
qed

lemma match_two_sub_two: "match_two (c # cs) = None \<Longrightarrow> match_two (c # sub_two cs) = None"
  using match_two_stable [of sub_two "[c]" cs, OF sub_two_local] by simp

lemma match_two_sub_one: "match_two (c # cs) = None \<Longrightarrow> match_two (c # sub_one cs) = None"
  using match_two_stable [of sub_one "[c]" cs, OF sub_one_local] by simp

lemma match_one_sub_two: "match_one (c # cs) = None \<Longrightarrow> match_one (c # sub_two cs) = None"
  using match_one_stable [of sub_two "[c]" cs, OF sub_two_local] by simp

lemma match_one_sub_one: "match_one (c # cs) = None \<Longrightarrow> match_one (c # sub_one cs) = None"
  using match_one_stable [of sub_one "[c]" cs, OF sub_one_local] by simp

lemma sub_two_free: "\<not> occurs_two s \<Longrightarrow> sub_two s = s"
  by (induction s) (auto split: option.splits)

lemma sub_one_free: "\<not> occurs_one s \<Longrightarrow> sub_one s = s"
  by (induction s) (auto split: option.splits)

lemma occurs_two_skip: "115 \<notin> set u \<Longrightarrow> occurs_two (u @ s) = occurs_two s"
  by (induction u) (auto simp: match_two_not_s)

lemma occurs_one_skip: "115 \<notin> set u \<Longrightarrow> occurs_one (u @ s) = occurs_one s"
  by (induction u) (auto simp: match_one_not_s)

lemma occurs_two_suffix: "occurs_two s \<Longrightarrow> occurs_two (u @ s)"
  by (induction u) (auto split: option.splits)

lemma occurs_one_suffix: "occurs_one s \<Longrightarrow> occurs_one (u @ s)"
  by (induction u) (auto split: option.splits)

lemma occurs_two_replace_two:
  assumes "\<forall>c\<in>set w. is_numch c" "e = py ''true'' \<or> e = py ''false''"
  shows "occurs_two (replace_two_params w e @ s) = occurs_two s"
  using assms(2) numch_no_s [OF assms(1)]
  by (auto simp: replace_two_params_def match_none occurs_two_skip)

lemma occurs_one_replace_two:
  assumes "\<forall>c\<in>set w. is_numch c" "e = py ''true'' \<or> e = py ''false''"
  shows "occurs_one (replace_two_params w e @ s) = occurs_one s"
  using assms(2) numch_no_s [OF assms(1)]
  by (auto simp: replace_two_params_def match_none occurs_one_skip)

lemma occurs_two_replace_one:
  assumes "\<forall>c\<in>set w. is_numch c"
  shows "occurs_two (replace_one_param w @ s) = occurs_two s"
  using numch_no_s [OF assms]
  by (auto simp: replace_one_param_def match_none occurs_two_skip)

lemma occurs_one_replace_one:
  assumes "\<forall>c\<in>set w. is_numch c"
  shows "occurs_one (replace_one_param w @ s) = occurs_one s"
  using numch_no_s [OF assms]
  by (auto simp: replace_one_param_def match_none occurs_one_skip)

lemma sub_two_clean: "\<not> occurs_two (sub_two s)"
proof (induction s rule: sub_two.induct)
  case 1
  show ?case by simp
next
  case (2 c cs)
  show ?case
  proof (cases "match_two (c # cs)")
    case None
    with "2.IH"(1) match_two_sub_two [OF None] show ?thesis by simp
  next
    case (Some x)
    obtain w e r where x: "x = (w, e, r)" by (cases x)
    from Some x match_two_SomeD [of "c # cs" w e r]
    have "\<forall>c\<in>set w. is_numch c" "e = py ''true'' \<or> e = py ''false''" by auto
    moreover have "\<not> occurs_two (sub_two r)"
      using "2.IH"(2) Some x by simp
    ultimately show ?thesis
      using Some x by (simp add: occurs_two_replace_two)
  qed
qed

lemma sub_one_clean: "\<not> occurs_one (sub_one s)"
proof (induction s rule: sub_one.induct)
  case 1
  show ?case by simp
next
  case (2 c cs)
  show ?case
  proof (cases "match_one (c # cs)")
    case None
    with "2.IH"(1) match_one_sub_one [OF None] show ?thesis by simp
  next
    case (Some x)
    obtain w r where x: "x = (w, r)" by (cases x)
    from Some x match_one_SomeD [of "c # cs" w r]
    have "\<forall>c\<in>set w. is_numch c" by auto
    moreover have "\<not> occurs_one (sub_one r)"
      using "2.IH"(2) Some x by simp
    ultimately show ?thesis
      using Some x by (simp add: occurs_one_replace_one)
  qed
qed

lemma sub_one_keeps_clean: "\<not> occurs_two s \<Longrightarrow> \<not> occurs_two (sub_one s)"
proof (induction s rule: sub_one.induct)
  case 1
  show ?case by simp
next
  case (2 c cs)
  from "2.prems" have m2: "match_two (c # cs) = None" and cs: "\<not> occurs_two cs"
    by (auto split: option.splits)
  show ?case
  proof (cases "match_one (c # cs)")
    case None
    with "2.IH"(1) cs match_two_sub_one [OF m2] show ?thesis by simp
  next
    case (Some x)
    obtain w r where x: "x = (w, r)" by (cases x)
    from Some x match_one_SomeD [of "c # cs" w r]
    have w: "\<forall>c\<in>set w. is_numch c" and s: "c # cs = py ''super('' @ w @ py '');'' @ r"
      by auto
    have "\<not> occurs_two r"
    proof
      assume "occurs_two r"
      then have "occurs_two ((py ''super('' @ w @ py '');'') @ r)"
        by (rule occurs_two_suffix)
      with s "2.prems" show False by simp
    qed
    then have "\<not> occurs_two (sub_one r)"
      using "2.IH"(2) Some x by simp
    then show ?thesis
      using Some x w by (simp add: occurs_two_replace_one)
  qed
qed

lemma transform_clean: "\<not> occurs_two (transform s) \<and> \<not> occurs_one (transform s)"
  unfolding transform_def
  by (simp add: sub_one_clean sub_one_keeps_clean sub_two_clean)

lemma transform_free: "\<not> occurs_two s \<Longrightarrow> \<not> occurs_one s \<Longrightarrow> transform s = s"
  unfolding transform_def by (simp add: sub_two_free sub_one_free)

lemma transform_idem: "transform (transform s) = transform s"
  using transform_clean [of s] by (simp add: transform_free)

lemma sub_commute: "sub_two (sub_one s) = sub_one (sub_two s)"
proof (induction s rule: length_induct)
  case (1 s)
  show ?case
  proof (cases s)
    case Nil
    then show ?thesis by simp
  next
    case (Cons c cs)
    show ?thesis
    proof (cases "match_two s")
      case (Some x)
      obtain w e r where x: "x = (w, e, r)" by (cases x)
      from Some x match_two_SomeD [of s w e r] obtain ws1 ws2 where
        s: "s = py ''super('' @ w @ py '','' @ ws1 @ e @ ws2 @ py '');'' @ r" and
        w: "w \<noteq> []" "\<forall>c\<in>set w. is_numch c" and
        ws: "\<forall>c\<in>set ws1. is_space c" "\<forall>c\<in>set ws2. is_space c" and
        e: "e = py ''true'' \<or> e = py ''false''"
        by blast
      have len: "length r < length s"
        using Some x by (simp add: match_two_shorter)
      have "sub_one (sub_two s) = replace_two_params w e @ sub_one (sub_two r)"
        using Some x sub_one_replace_two [OF w(2) e] by (simp add: sub_two_match)
      moreover have "sub_one s = py ''super('' @ w @ py '','' @ ws1 @ e @ ws2 @ py '');'' @ sub_one r"
        unfolding s by (rule sub_one_over_match_two [OF w(2) ws e])
      moreover have "match_two (py ''super('' @ w @ py '','' @ ws1 @ e @ ws2 @ py '');'' @ sub_one r)
          = Some (w, e, sub_one r)"
        by (rule match_two_intro [OF w ws e])
      ultimately have "sub_two (sub_one s) = replace_two_params w e @ sub_two (sub_one r)"
        by (simp only: sub_two_match)
      moreover have "sub_two (sub_one r) = sub_one (sub_two r)"
        using 1 len by blast
      ultimately show ?thesis
        using \<open>sub_one (sub_two s) = replace_two_params w e @ sub_one (sub_two r)\<close> by simp
    next
      case None
      note m2 = None
      show ?thesis
      proof (cases "match_one s")
        case (Some x)
        obtain w r where x: "x = (w, r)" by (cases x)
        from Some x match_one_SomeD [of s w r] have
          s: "s = py ''super('' @ w @ py '');'' @ r" and
          w: "w \<noteq> []" "\<forall>c\<in>set w. is_numch c"
          by auto
        have len: "length r < length s"
          using Some x by (simp add: match_one_shorter)
        have a: "sub_two (sub_one s) = replace_one_param w @ sub_two (sub_one r)"
          using Some x sub_two_replace_one [OF w(2)] by (simp add: sub_one_match)
        have "sub_two s = py ''super('' @ w @ py '');'' @ sub_two r"
          unfolding s by (rule sub_two_over_match_one [OF w(2)])
        moreover have "match_one (py ''super('' @ w @ py '');'' @ sub_two r) = Some (w, sub_two r)"
          by (rule match_one_intro [OF w])
        ultimately have "sub_one (sub_two s) = replace_one_param w @ sub_one (sub_two r)"
          by (simp only: sub_one_match)
        moreover have "sub_two (sub_one r) = sub_one (sub_two r)"
          using 1 len by blast
        ultimately show ?thesis
          using a by simp
      next
        case None
        have "sub_two (sub_one cs) = sub_one (sub_two cs)"
          using 1 Cons by simp
        moreover have "match_two (c # sub_one cs) = None"
          using m2 Cons by (simp add: match_two_sub_one)
        moreover have "match_one (c # sub_two cs) = None"
          using None Cons by (simp add: match_one_sub_two)
        ultimately show ?thesis
          using m2 None Cons by simp
      qed
    qed
  qed
qed

lemma match_two_iff:
  "match_two s = Some (w, e, r) \<longleftrightarrow>
     (\<exists>ws1 ws2. s = py ''super('' @ w @ py '','' @ ws1 @ e @ ws2 @ py '');'' @ r \<and>
        w \<noteq> [] \<and> (\<forall>c\<in>set w. is_numch c) \<and> (\<forall>c\<in>set ws1. is_space c) \<and>
        (\<forall>c\<in>set ws2. is_space c) \<and> (e = py ''true'' \<or> e = py ''false''))"
  using match_two_SomeD [of s w e r] match_two_intro [of w _ _ e r] by blast

lemma match_one_iff:
  "match_one s = Some (w, r) \<longleftrightarrow>
     s = py ''super('' @ w @ py '');'' @ r \<and> w \<noteq> [] \<and> (\<forall>c\<in>set w. is_numch c)"
  using match_one_SomeD [of s w r] match_one_intro [of w r] by blast

lemma occurs_two_iff:
  "occurs_two s \<longleftrightarrow> (\<exists>pre x t. s = pre @ t \<and> match_two t = Some x)"
proof
  show "occurs_two s \<Longrightarrow> \<exists>pre x t. s = pre @ t \<and> match_two t = Some x"
  proof (induction s)
    case Nil
    then show ?case by simp
  next
    case (Cons c cs)
    show ?case
    proof (cases "match_two (c # cs)")
      case None
      with Cons obtain pre x t where "cs = pre @ t" "match_two t = Some x" by auto
      then have "c # cs = (c # pre) @ t \<and> match_two t = Some x" by simp
      then show ?thesis by blast
    next
      case (Some x)
      then have "c # cs = [] @ (c # cs) \<and> match_two (c # cs) = Some x" by simp
      then show ?thesis by blast
    qed
  qed
next
  assume "\<exists>pre x t. s = pre @ t \<and> match_two t = Some x"
  then obtain pre x t where s: "s = pre @ t" and m: "match_two t = Some x" by blast
  from m have "occurs_two t" by (cases t) (auto simp: match_two_def)
  then show "occurs_two s" unfolding s by (rule occurs_two_suffix)
qed

lemma occurs_one_iff:
  "occurs_one s \<longleftrightarrow> (\<exists>pre x t. s = pre @ t \<and> match_one t = Some x)"
proof
  show "occurs_one s \<Longrightarrow> \<exists>pre x t. s = pre @ t \<and> match_one t = Some x"
  proof (induction s)
    case Nil
    then show ?case by simp
  next
    case (Cons c cs)
    show ?case
    proof (cases "match_one (c # cs)")
      case None
      with Cons obtain pre x t where "cs = pre @ t" "match_one t = Some x" by auto
      then have "c # cs = (c # pre) @ t \<and> match_one t = Some x" by simp
      then show ?thesis by blast
    next
      case (Some x)
      then have "c # cs = [] @ (c # cs) \<and> match_one (c # cs) = Some x" by simp
      then show ?thesis by blast
    qed
  qed
next
  assume "\<exists>pre x t. s = pre @ t \<and> match_one t = Some x"
  then obtain pre x t where s: "s = pre @ t" and m: "match_one t = Some x" by blast
  from m have "occurs_one t" by (cases t) (auto simp: match_one_def)
  then show "occurs_one s" unfolding s by (rule occurs_one_suffix)
qed

lemma transform_two_occurrence:
  assumes w: "w \<noteq> []" "\<forall>c\<in>set w. is_numch c"
    and ws: "\<forall>c\<in>set ws1. is_space c" "\<forall>c\<in>set ws2. is_space c"
    and e: "e = py ''true'' \<or> e = py ''false''"
  shows "transform (pre @ py ''super('' @ w @ py '','' @ ws1 @ e @ ws2 @ py '');'' @ post)
           = transform pre @ replace_two_params w e @ transform post"
proof -
  let ?m = "py ''super('' @ w @ py '','' @ ws1 @ e @ ws2 @ py '');'' @ post"
  have "\<exists>t'. ?m = 115 # 117 # t'" by simp
  then obtain t' where m: "?m = 115 # 117 # t'" ..
  have "sub_two (pre @ ?m) = sub_two pre @ sub_two ?m"
    by (rule sub_two_append_su [OF m])
  also have "sub_two ?m = replace_two_params w e @ sub_two post"
    by (rule sub_two_match [OF match_two_intro [OF w ws e]])
  finally have a: "sub_two (pre @ ?m) = sub_two pre @ replace_two_params w e @ sub_two post" .
  have "\<exists>t'. replace_two_params w e @ sub_two post = 115 # 117 # t'"
    by (simp add: replace_two_params_def)
  then obtain t2 where r: "replace_two_params w e @ sub_two post = 115 # 117 # t2" ..
  have "sub_one (sub_two pre @ replace_two_params w e @ sub_two post)
          = sub_one (sub_two pre) @ sub_one (replace_two_params w e @ sub_two post)"
    by (rule sub_one_append_su [OF r])
  also have "sub_one (replace_two_params w e @ sub_two post)
          = replace_two_params w e @ sub_one (sub_two post)"
    by (rule sub_one_replace_two [OF w(2) e])
  finally show ?thesis
    unfolding transform_def a .
qed

lemma transform_one_occurrence:
  assumes w: "w \<noteq> []" "\<forall>c\<in>set w. is_numch c"
  shows "transform (pre @ py ''super('' @ w @ py '');'' @ post)
           = transform pre @ replace_one_param w @ transform post"
proof -
  let ?m = "py ''super('' @ w @ py '');'' @ post"
  have "\<exists>t'. ?m = 115 # 117 # t'" by simp
  then obtain t' where m: "?m = 115 # 117 # t'" ..
  have "sub_two (pre @ ?m) = sub_two pre @ sub_two ?m"
    by (rule sub_two_append_su [OF m])
  also have "sub_two ?m = py ''super('' @ w @ py '');'' @ sub_two post"
    by (rule sub_two_over_match_one [OF w(2)])
  finally have a: "sub_two (pre @ ?m) = sub_two pre @ py ''super('' @ w @ py '');'' @ sub_two post" .
  have "\<exists>t'. py ''super('' @ w @ py '');'' @ sub_two post = 115 # 117 # t'"
    by simp
  then obtain t2 where r: "py ''super('' @ w @ py '');'' @ sub_two post = 115 # 117 # t2" ..
  have "sub_one (sub_two pre @ py ''super('' @ w @ py '');'' @ sub_two post)
          = sub_one (sub_two pre) @ sub_one (py ''super('' @ w @ py '');'' @ sub_two post)"
    by (rule sub_one_append_su [OF r])
  also have "sub_one (py ''super('' @ w @ py '');'' @ sub_two post)
          = replace_one_param w @ sub_one (sub_two post)"
    by (rule sub_one_match [OF match_one_intro [OF w]])
  finally show ?thesis
    unfolding transform_def a .
qed

lemma space_not_numch: "is_space a \<Longrightarrow> \<not> is_numch a \<and> a \<noteq> 44 \<and> a \<noteq> 41 \<and> a \<noteq> 115"
  by (auto simp: is_space_def is_numch_def)

lemma match_two_spaced:
  assumes "\<forall>c\<in>set w. is_numch c" "is_space a"
  shows "match_two (py ''super('' @ w @ a # s) = None"
  using takeWhile_all [of w is_numch a s] dropWhile_all [of w is_numch a s] assms
    space_not_numch [of a]
  by (simp add: match_two_def)

lemma match_one_spaced:
  assumes "\<forall>c\<in>set w. is_numch c" "is_space a"
  shows "match_one (py ''super('' @ w @ a # s) = None"
  using takeWhile_all [of w is_numch a s] dropWhile_all [of w is_numch a s] assms
    space_not_numch [of a]
  by (simp add: match_one_def)

lemma sub_two_over_spaced:
  assumes w: "\<forall>c\<in>set w. is_numch c" and ws: "ws \<noteq> []" "\<forall>c\<in>set ws. is_space c"
  shows "sub_two (py ''super('' @ w @ ws @ py '');'' @ r)
           = py ''super('' @ w @ ws @ py '');'' @ sub_two r"
proof -
  from ws obtain a ws' where a: "ws = a # ws'" "is_space a" "\<forall>c\<in>set ws'. is_space c"
    by (cases ws) auto
  have m: "match_two (py ''super('' @ w @ a # s) = None" for s
    by (rule match_two_spaced [OF w a(2)])
  have "sub_two (py ''super('' @ w @ a # ws' @ 41 # 59 # r)
           = py ''super('' @ w @ a # ws' @ 41 # 59 # sub_two r"
    using m [of "ws' @ 41 # 59 # r"] numch_no_s [OF w] space_no_s [OF a(3)] space_not_numch [OF a(2)]
    by (simp add: match_none sub_two_skip)
  then show ?thesis by (simp add: a(1))
qed

lemma sub_one_over_spaced:
  assumes w: "\<forall>c\<in>set w. is_numch c" and ws: "ws \<noteq> []" "\<forall>c\<in>set ws. is_space c"
  shows "sub_one (py ''super('' @ w @ ws @ py '');'' @ r)
           = py ''super('' @ w @ ws @ py '');'' @ sub_one r"
proof -
  from ws obtain a ws' where a: "ws = a # ws'" "is_space a" "\<forall>c\<in>set ws'. is_space c"
    by (cases ws) auto
  have m: "match_one (py ''super('' @ w @ a # s) = None" for s
    by (rule match_one_spaced [OF w a(2)])
  have "sub_one (py ''super('' @ w @ a # ws' @ 41 # 59 # r)
           = py ''super('' @ w @ a # ws' @ 41 # 59 # sub_one r"
    using m [of "ws' @ 41 # 59 # r"] numch_no_s [OF w] space_no_s [OF a(3)] space_not_numch [OF a(2)]
    by (simp add: match_none sub_one_skip)
  then show ?thesis by (simp add: a(1))
qed

lemma sub_two_spaced_occurrence:
  assumes w: "\<forall>c\<in>set w. is_numch c" and ws: "ws \<noteq> []" "\<forall>c\<in>set ws. is_space c"
  shows "sub_two (pre @ py ''super('' @ w @ ws @ py '');'' @ post)
           = sub_two pre @ py ''super('' @ w @ ws @ py '');'' @ sub_two post"
proof -
  let ?m = "py ''super('' @ w @ ws @ py '');'' @ post"
  have "\<exists>t'. ?m = 115 # 117 # t'" by simp
  then obtain t' where m: "?m = 115 # 117 # t'" ..
  show ?thesis
    by (simp only: sub_two_append_su [OF m] sub_two_over_spaced [OF w ws])
qed

lemma sub_one_spaced_occurrence:
  assumes w: "\<forall>c\<in>set w. is_numch c" and ws: "ws \<noteq> []" "\<forall>c\<in>set ws. is_space c"
  shows "sub_one (pre @ py ''super('' @ w @ ws @ py '');'' @ post)
           = sub_one pre @ py ''super('' @ w @ ws @ py '');'' @ sub_one post"
proof -
  let ?m = "py ''super('' @ w @ ws @ py '');'' @ post"
  have "\<exists>t'. ?m = 115 # 117 # t'" by simp
  then obtain t' where m: "?m = 115 # 117 # t'" ..
  show ?thesis
    by (simp only: sub_one_append_su [OF m] sub_one_over_spaced [OF w ws])
qed

lemma sub_two_two_occurrence:
  assumes w: "w \<noteq> []" "\<forall>c\<in>set w. is_numch c"
    and ws: "\<forall>c\<in>set ws1. is_space c" "\<forall>c\<in>set ws2. is_space c"
    and e: "e = py ''true'' \<or> e = py ''false''"
  shows "sub_two (pre @ py ''super('' @ w @ py '','' @ ws1 @ e @ ws2 @ py '');'' @ post)
           = sub_two pre @ replace_two_params w e @ sub_two post"
proof -
  let ?m = "py ''super('' @ w @ py '','' @ ws1 @ e @ ws2 @ py '');'' @ post"
  have "\<exists>t'. ?m = 115 # 117 # t'" by simp
  then obtain t' where m: "?m = 115 # 117 # t'" ..
  have "sub_two (pre @ ?m) = sub_two pre @ sub_two ?m"
    by (rule sub_two_append_su [OF m])
  also have "sub_two ?m = replace_two_params w e @ sub_two post"
    by (rule sub_two_match [OF match_two_intro [OF w ws e]])
  finally show ?thesis .
qed

lemma sub_two_one_occurrence:
  assumes w: "\<forall>c\<in>set w. is_numch c"
  shows "sub_two (pre @ py ''super('' @ w @ py '');'' @ post)
           = sub_two pre @ py ''super('' @ w @ py '');'' @ sub_two post"
proof -
  let ?m = "py ''super('' @ w @ py '');'' @ post"
  have "\<exists>t'. ?m = 115 # 117 # t'" by simp
  then obtain t' where m: "?m = 115 # 117 # t'" ..
  show ?thesis
    by (simp only: sub_two_append_su [OF m] sub_two_over_match_one [OF w])
qed

lemma match_exclusive:
  assumes "match_two s = Some x"
  shows "match_one s = None"
proof -
  obtain w e r where x: "x = (w, e, r)" by (cases x)
  from assms x match_two_SomeD [of s w e r] obtain t where
    "s = py ''super('' @ w @ 44 # t" "\<forall>c\<in>set w. is_numch c"
    by auto
  then show ?thesis
    by (simp only: match_one_comma)
qed

section \<open>Properties of the run\<close>

lemma transformed_twice: "transformed (transformed f) = transformed f"
  by (cases "contents f") (simp_all add: transformed_def transform_idem)

lemma transformed_unchanged:
  "contents f = Some c \<Longrightarrow> transform c = c \<Longrightarrow> transformed f = f"
  by (simp add: transformed_def)

lemma lookup_touch [simp]: "lookup (touch fs0 p) = lookup fs0"
  by (simp add: touch_def split: option.splits)

lemma node_of_touch:
  "node_of (touch fs0 p) k =
     (if lookup fs0 p = Some k then transformed (node_of fs0 k) else node_of fs0 k)"
  by (auto simp: touch_def split: option.splits)

lemma outcome_at_0:
  "outcome_at fs0 (p # ps) 0 =
     (case lookup fs0 p of None \<Rightarrow> Skipped
      | Some k \<Rightarrow> (case contents (node_of fs0 k) of None \<Rightarrow> Unchanged
          | Some c \<Rightarrow> if transform c \<noteq> c then Fixed else Unchanged))"
  by (simp add: outcome_at_def split: option.splits)

lemma process_file_step:
  assumes "process_file p st = Inr st1"
  shows "out st1 = out st @ [outcome_line (outcome_at (fs st) (p # ps) 0) p]"
    and "fixed_count st1 = fixed_count st + (if outcome_at (fs st) (p # ps) 0 = Fixed then 1 else 0)"
    and "writes st1 = writes st @
           (if outcome_at (fs st) (p # ps) 0 = Fixed then [(p, new_text (fs st) p)] else [])"
    and "fs st1 = touch (fs st) p"
proof -
  show "out st1 = out st @ [outcome_line (outcome_at (fs st) (p # ps) 0) p]"
    using assms
    by (auto simp: process_file_def outcome_at_0 Let_def split: option.splits if_splits)
  show "fixed_count st1 = fixed_count st + (if outcome_at (fs st) (p # ps) 0 = Fixed then 1 else 0)"
    using assms
    by (auto simp: process_file_def outcome_at_0 Let_def split: option.splits if_splits)
  show "writes st1 = writes st @
           (if outcome_at (fs st) (p # ps) 0 = Fixed then [(p, new_text (fs st) p)] else [])"
    using assms
    by (auto simp: process_file_def outcome_at_0 new_text_def Let_def split: option.splits if_splits)
  show "fs st1 = touch (fs st) p"
  proof (cases "lookup (fs st) p")
    case None
    with assms show ?thesis
      by (auto simp: process_file_def touch_def)
  next
    case (Some k)
    with assms obtain c where c: "contents (node_of (fs st) k) = Some c"
      by (auto simp: process_file_def Let_def split: option.splits)
    show ?thesis
    proof (cases "transform c = c")
      case True
      then have "transformed (node_of (fs st) k) = node_of (fs st) k"
        using c by (rule transformed_unchanged [rotated])
      with assms Some c True show ?thesis
        by (auto simp: process_file_def touch_def Let_def)
    next
      case False
      with assms Some c show ?thesis
        by (auto simp: process_file_def touch_def transformed_def Let_def split: if_splits)
    qed
  qed
qed

lemma outcome_at_shift:
  assumes "i < length ps"
  shows "outcome_at (touch fs0 p) ps i = outcome_at fs0 (p # ps) (Suc i)"
proof (cases "lookup fs0 (ps ! i)")
  case None
  then show ?thesis by (simp add: outcome_at_def)
next
  case (Some k)
  show ?thesis
  proof (cases "lookup fs0 p = Some k")
    case True
    with Some show ?thesis
      by (auto simp: outcome_at_def node_of_touch transformed_def transform_idem
            split: option.splits)
  next
    case False
    with Some show ?thesis
      by (auto simp: outcome_at_def node_of_touch split: option.splits)
  qed
qed

lemma new_text_shift:
  assumes "outcome_at fs0 (p # ps) (Suc i) = Fixed"
  shows "new_text (touch fs0 p) (ps ! i) = new_text fs0 (ps ! i)"
proof -
  from assms obtain k where "lookup fs0 (ps ! i) = Some k" "lookup fs0 p \<noteq> Some k"
    by (auto simp: outcome_at_def split: option.splits if_splits)
  then show ?thesis
    by (simp add: new_text_def node_of_touch)
qed

lemma upt_Suc_shift: "[0..<Suc n] = 0 # map Suc [0..<n]"
  by (simp add: upt_conv_Cons map_Suc_upt del: upt_Suc)

lemma fixed_indices_Cons:
  "fixed_indices fs0 (p # ps) =
     (if outcome_at fs0 (p # ps) 0 = Fixed then [0] else []) @
     map Suc (fixed_indices (touch fs0 p) ps)"
proof -
  have "filter (\<lambda>i. outcome_at fs0 (p # ps) (Suc i) = Fixed) [0..<length ps]
          = filter (\<lambda>i. outcome_at (touch fs0 p) ps i = Fixed) [0..<length ps]"
    by (rule filter_cong) (simp_all add: outcome_at_shift)
  then show ?thesis
    unfolding fixed_indices_def
    by (simp add: upt_Suc_shift filter_map comp_def del: upt_Suc)
qed

lemma process_all_result:
  assumes "process_all ps st = Inr st'"
  shows "out st' = out st @ map (\<lambda>i. outcome_line (outcome_at (fs st) ps i) (ps ! i)) [0..<length ps]
    \<and> fixed_count st' = fixed_count st + length (fixed_indices (fs st) ps)
    \<and> writes st' = writes st @ map (\<lambda>i. (ps ! i, new_text (fs st) (ps ! i))) (fixed_indices (fs st) ps)
    \<and> lookup (fs st') = lookup (fs st)
    \<and> node_of (fs st') = (\<lambda>k. if Some k \<in> lookup (fs st) ` set ps
                                then transformed (node_of (fs st) k) else node_of (fs st) k)"
  using assms
proof (induction ps arbitrary: st)
  case Nil
  then show ?case by (simp add: fixed_indices_def)
next
  case (Cons p ps)
  from Cons.prems obtain st1 where
    s1: "process_file p st = Inr st1" and rest: "process_all ps st1 = Inr st'"
    by (auto split: sum.splits)
  let ?fs1 = "touch (fs st) p"
  let ?o0 = "outcome_at (fs st) (p # ps) 0"
  have f1: "fs st1 = ?fs1" by (rule process_file_step(4) [OF s1])
  have step1: "out st1 = out st @ [outcome_line ?o0 p]"
    by (rule process_file_step(1) [OF s1])
  have step2: "fixed_count st1 = fixed_count st + (if ?o0 = Fixed then 1 else 0)"
    by (rule process_file_step(2) [OF s1])
  have step3: "writes st1 = writes st @ (if ?o0 = Fixed then [(p, new_text (fs st) p)] else [])"
    by (rule process_file_step(3) [OF s1])
  from Cons.IH [OF rest] have
    ih1: "out st' = out st1 @ map (\<lambda>i. outcome_line (outcome_at (fs st1) ps i) (ps ! i)) [0..<length ps]" and
    ih2: "fixed_count st' = fixed_count st1 + length (fixed_indices (fs st1) ps)" and
    ih3: "writes st' = writes st1 @ map (\<lambda>i. (ps ! i, new_text (fs st1) (ps ! i))) (fixed_indices (fs st1) ps)" and
    ih4: "lookup (fs st') = lookup (fs st1)" and
    ih5: "node_of (fs st') = (\<lambda>k. if Some k \<in> lookup (fs st1) ` set ps
                                then transformed (node_of (fs st1) k) else node_of (fs st1) k)"
    by blast+
  have o: "map (\<lambda>i. outcome_line (outcome_at ?fs1 ps i) (ps ! i)) [0..<length ps]
         = map (\<lambda>i. outcome_line (outcome_at (fs st) (p # ps) (Suc i)) (ps ! i)) [0..<length ps]"
    by (rule map_cong) (simp_all add: outcome_at_shift)
  have "out st' = (out st @ [outcome_line ?o0 p]) @
      map (\<lambda>i. outcome_line (outcome_at (fs st) (p # ps) (Suc i)) (ps ! i)) [0..<length ps]"
    unfolding ih1 step1 f1 o ..
  also have "\<dots> = out st @
      map (\<lambda>i. outcome_line (outcome_at (fs st) (p # ps) i) ((p # ps) ! i)) [0..<length (p # ps)]"
    by (simp add: upt_Suc_shift comp_def del: upt_Suc)
  finally have out: "out st' = out st @
      map (\<lambda>i. outcome_line (outcome_at (fs st) (p # ps) i) ((p # ps) ! i)) [0..<length (p # ps)]" .
  have fi: "fixed_indices (fs st) (p # ps) =
      (if ?o0 = Fixed then [0] else []) @ map Suc (fixed_indices ?fs1 ps)"
    by (rule fixed_indices_Cons)
  have "fixed_count st' = fixed_count st + (if ?o0 = Fixed then 1 else 0) + length (fixed_indices ?fs1 ps)"
    unfolding ih2 step2 f1 ..
  also have "\<dots> = fixed_count st + length (fixed_indices (fs st) (p # ps))"
    unfolding fi by simp
  finally have cnt: "fixed_count st' = fixed_count st + length (fixed_indices (fs st) (p # ps))" .
  have w: "map (\<lambda>i. (ps ! i, new_text ?fs1 (ps ! i))) (fixed_indices ?fs1 ps)
         = map (\<lambda>i. (ps ! i, new_text (fs st) (ps ! i))) (fixed_indices ?fs1 ps)"
  proof (rule map_cong [OF refl])
    fix i assume "i \<in> set (fixed_indices ?fs1 ps)"
    then have "i < length ps" "outcome_at ?fs1 ps i = Fixed"
      by (simp_all add: fixed_indices_def)
    then have "outcome_at (fs st) (p # ps) (Suc i) = Fixed"
      by (simp add: outcome_at_shift)
    then have "new_text ?fs1 (ps ! i) = new_text (fs st) (ps ! i)"
      by (rule new_text_shift)
    then show "(ps ! i, new_text ?fs1 (ps ! i)) = (ps ! i, new_text (fs st) (ps ! i))"
      by (simp only:)
  qed
  have "writes st' = (writes st @ (if ?o0 = Fixed then [(p, new_text (fs st) p)] else [])) @
      map (\<lambda>i. (ps ! i, new_text (fs st) (ps ! i))) (fixed_indices ?fs1 ps)"
    unfolding ih3 step3 f1 w ..
  also have "\<dots> = writes st @
      map (\<lambda>i. ((p # ps) ! i, new_text (fs st) ((p # ps) ! i))) (fixed_indices (fs st) (p # ps))"
    unfolding fi by (simp add: comp_def)
  finally have wr: "writes st' = writes st @
      map (\<lambda>i. ((p # ps) ! i, new_text (fs st) ((p # ps) ! i))) (fixed_indices (fs st) (p # ps))" .
  have lk: "lookup (fs st') = lookup (fs st)"
    unfolding ih4 f1 by simp
  have "node_of (fs st') k = (if Some k \<in> lookup (fs st) ` set (p # ps)
          then transformed (node_of (fs st) k) else node_of (fs st) k)" for k
    unfolding ih5 f1 by (simp add: node_of_touch transformed_twice)
  then have nd: "node_of (fs st') = (\<lambda>k. if Some k \<in> lookup (fs st) ` set (p # ps)
          then transformed (node_of (fs st) k) else node_of (fs st) k)"
    by (simp only: fun_eq_iff) simp
  from out cnt wr lk nd show ?case by blast
qed

lemma healthy_touch:
  assumes "healthy fs0 (p # ps)"
  shows "healthy (touch fs0 p) ps"
  unfolding healthy_def
proof (intro ballI allI impI)
  fix q k
  assume q: "q \<in> set ps" and k: "lookup (touch fs0 p) q = Some k"
  then have k0: "lookup fs0 q = Some k" by simp
  with assms q have r: "contents (node_of fs0 k) \<noteq> None"
      and w: "changed fs0 q \<longrightarrow> writable (node_of fs0 k)"
    by (auto simp: healthy_def)
  show "contents (node_of (touch fs0 p) k) \<noteq> None \<and>
        (changed (touch fs0 p) q \<longrightarrow> writable (node_of (touch fs0 p) k))"
  proof (cases "lookup fs0 p = Some k")
    case True
    then show ?thesis
      using r k0 by (auto simp: node_of_touch transformed_def changed_def transform_idem)
  next
    case False
    then show ?thesis
      using r w k0 by (auto simp: node_of_touch changed_def)
  qed
qed

lemma process_file_healthy:
  assumes "healthy (fs st) (p # ps)"
  shows "\<exists>st1. process_file p st = Inr st1"
  using assms
  by (auto simp: healthy_def process_file_def changed_def Let_def split: option.splits)

lemma process_all_healthy:
  assumes "healthy (fs st) ps"
  shows "\<exists>st'. process_all ps st = Inr st'"
  using assms
proof (induction ps arbitrary: st)
  case Nil
  then show ?case by simp
next
  case (Cons p ps)
  from process_file_healthy [OF Cons.prems] obtain st1 where
    s1: "process_file p st = Inr st1" ..
  have "fs st1 = touch (fs st) p"
    by (rule process_file_step(4) [OF s1])
  with healthy_touch [OF Cons.prems] have "healthy (fs st1) ps" by simp
  from Cons.IH [OF this] s1 show ?case by simp
qed

lemma main_result:
  assumes "main files fs0 = Inr st"
  shows "out st = map (\<lambda>i. outcome_line (outcome_at fs0 files i) (files ! i)) [0..<length files]
           @ [py ''\<newline>Total files fixed: '' @ str_of_nat (length (fixed_indices fs0 files))]"
    and "fixed_count st = length (fixed_indices fs0 files)"
    and "writes st = map (\<lambda>i. (files ! i, new_text fs0 (files ! i))) (fixed_indices fs0 files)"
    and "lookup (fs st) = lookup fs0"
    and "node_of (fs st) = (\<lambda>k. if Some k \<in> lookup fs0 ` set files
                                then transformed (node_of fs0 k) else node_of fs0 k)"
proof -
  let ?st0 = "\<lparr>fs = fs0, out = [], writes = [], fixed_count = 0\<rparr>"
  from assms obtain st1 where
    p: "process_all files ?st0 = Inr st1" and
    st: "st = st1\<lparr>out := out st1 @
           [py ''\<newline>Total files fixed: '' @ str_of_nat (fixed_count st1)]\<rparr>"
    unfolding main_def by (auto split: sum.splits)
  from process_all_result [OF p] have
    r1: "out st1 = map (\<lambda>i. outcome_line (outcome_at fs0 files i) (files ! i)) [0..<length files]" and
    r2: "fixed_count st1 = length (fixed_indices fs0 files)" and
    r3: "writes st1 = map (\<lambda>i. (files ! i, new_text fs0 (files ! i))) (fixed_indices fs0 files)" and
    r4: "lookup (fs st1) = lookup fs0" and
    r5: "node_of (fs st1) = (\<lambda>k. if Some k \<in> lookup fs0 ` set files
                                then transformed (node_of fs0 k) else node_of fs0 k)"
    by (simp_all cong: if_cong)
  show "out st = map (\<lambda>i. outcome_line (outcome_at fs0 files i) (files ! i)) [0..<length files]
           @ [py ''\<newline>Total files fixed: '' @ str_of_nat (length (fixed_indices fs0 files))]"
    unfolding st using r1 r2 by simp
  show "fixed_count st = length (fixed_indices fs0 files)"
    unfolding st using r2 by simp
  show "writes st = map (\<lambda>i. (files ! i, new_text fs0 (files ! i))) (fixed_indices fs0 files)"
    unfolding st using r3 by simp
  show "lookup (fs st) = lookup fs0"
    unfolding st using r4 by simp
  show "node_of (fs st) = (\<lambda>k. if Some k \<in> lookup fs0 ` set files
                                then transformed (node_of fs0 k) else node_of fs0 k)"
    unfolding st using r5 by simp
qed

lemma main_healthy:
  assumes "healthy fs0 files"
  shows "\<exists>st. main files fs0 = Inr st"
proof -
  have "\<exists>st'. process_all files \<lparr>fs = fs0, out = [], writes = [], fixed_count = 0\<rparr> = Inr st'"
    by (rule process_all_healthy) (use assms in simp)
  then show ?thesis
    unfolding main_def by auto
qed

lemma changed_lookup: "lookup fs0 p = lookup fs0 q \<Longrightarrow> changed fs0 p = changed fs0 q"
  by (simp add: changed_def)

lemma fixed_indices_mem:
  "i \<in> set (fixed_indices fs0 files) \<longleftrightarrow>
     i < length files \<and> changed fs0 (files ! i) \<and>
     lookup fs0 (files ! i) \<notin> set (map (lookup fs0) (take i files))"
  by (auto simp: fixed_indices_def outcome_at_def changed_def split: option.splits if_splits)

lemma fixed_files_set:
  "(\<lambda>i. lookup fs0 (files ! i)) ` set (fixed_indices fs0 files)
     = lookup fs0 ` {p \<in> set files. changed fs0 p}"
proof (intro set_eqI iffI)
  fix x assume "x \<in> (\<lambda>i. lookup fs0 (files ! i)) ` set (fixed_indices fs0 files)"
  then obtain i where "i < length files" "changed fs0 (files ! i)" "x = lookup fs0 (files ! i)"
    by (auto simp: fixed_indices_mem)
  then have "files ! i \<in> {p \<in> set files. changed fs0 p}" by simp
  with \<open>x = lookup fs0 (files ! i)\<close> show "x \<in> lookup fs0 ` {p \<in> set files. changed fs0 p}"
    by blast
next
  fix x assume "x \<in> lookup fs0 ` {p \<in> set files. changed fs0 p}"
  then obtain p where p: "p \<in> set files" "changed fs0 p" "x = lookup fs0 p" by blast
  then have "x \<in> set (map (lookup fs0) files)" by simp
  from split_list_first [OF this] obtain ys zs where
    f: "map (lookup fs0) files = ys @ x # zs" and n: "x \<notin> set ys" by blast
  let ?i = "length ys"
  have len: "?i < length files"
    using arg_cong [OF f, of length] by simp
  have x: "lookup fs0 (files ! ?i) = x"
    using nth_map [OF len, of "lookup fs0"] by (simp add: f)
  have "map (lookup fs0) (take ?i files) = take ?i (map (lookup fs0) files)"
    by (simp add: take_map)
  also have "\<dots> = ys" by (simp add: f)
  finally have t: "map (lookup fs0) (take ?i files) = ys" .
  have "changed fs0 (files ! ?i)"
    using changed_lookup [of fs0 "files ! ?i" p] x p(2,3) by simp
  with len x n t have "?i \<in> set (fixed_indices fs0 files)"
    by (simp add: fixed_indices_mem)
  with x show "x \<in> (\<lambda>i. lookup fs0 (files ! i)) ` set (fixed_indices fs0 files)"
    by force
qed

lemma fixed_files_distinct:
  "distinct (map (\<lambda>i. lookup fs0 (files ! i)) (fixed_indices fs0 files))"
proof -
  have later: "lookup fs0 (files ! i) \<noteq> lookup fs0 (files ! j)"
    if "i < j" "j \<in> set (fixed_indices fs0 files)" for i j
  proof
    assume eq: "lookup fs0 (files ! i) = lookup fs0 (files ! j)"
    from that have j: "j < length files"
        "lookup fs0 (files ! j) \<notin> set (map (lookup fs0) (take j files))"
      by (simp_all add: fixed_indices_mem)
    from that(1) j(1) have "take j files ! i = files ! i" "i < length (take j files)"
      by simp_all
    then have "files ! i \<in> set (take j files)"
      by (metis nth_mem)
    then have "lookup fs0 (files ! i) \<in> set (map (lookup fs0) (take j files))"
      by simp
    with eq j(2) show False by simp
  qed
  have "inj_on (\<lambda>i. lookup fs0 (files ! i)) (set (fixed_indices fs0 files))"
  proof (rule inj_onI)
    fix i j
    assume i: "i \<in> set (fixed_indices fs0 files)" and j: "j \<in> set (fixed_indices fs0 files)"
      and eq: "lookup fs0 (files ! i) = lookup fs0 (files ! j)"
    show "i = j"
    proof (rule ccontr)
      assume "i \<noteq> j"
      then consider "i < j" | "j < i" by linarith
      then show False
      proof cases
        case 1
        from later [OF 1 j] eq show False by simp
      next
        case 2
        from later [OF 2 i] eq show False by simp
      qed
    qed
  qed
  moreover have "distinct (fixed_indices fs0 files)"
    by (simp add: fixed_indices_def)
  ultimately show ?thesis
    by (simp add: distinct_map)
qed

lemma fixed_indices_card:
  "length (fixed_indices fs0 files) = card (lookup fs0 ` {p \<in> set files. changed fs0 p})"
proof -
  have "card (set (map (\<lambda>i. lookup fs0 (files ! i)) (fixed_indices fs0 files)))
          = length (map (\<lambda>i. lookup fs0 (files ! i)) (fixed_indices fs0 files))"
    by (rule distinct_card [OF fixed_files_distinct])
  then show ?thesis
    by (simp add: fixed_files_set)
qed

lemma main_written:
  assumes "main files fs0 = Inr st"
  shows "map fst (writes st) = map (\<lambda>i. files ! i) (fixed_indices fs0 files)"
    and "map (\<lambda>w. lookup fs0 (fst w)) (writes st)
           = map (\<lambda>i. lookup fs0 (files ! i)) (fixed_indices fs0 files)"
    and "(\<lambda>w. lookup fs0 (fst w)) ` set (writes st) = lookup fs0 ` {p \<in> set files. changed fs0 p}"
    and "distinct (map (\<lambda>w. lookup fs0 (fst w)) (writes st))"
    and "(p, c) \<in> set (writes st) \<Longrightarrow> p \<in> set files \<and> changed fs0 p \<and> c = new_text fs0 p"
proof -
  show "map fst (writes st) = map (\<lambda>i. files ! i) (fixed_indices fs0 files)"
    unfolding main_result(3) [OF assms] by (simp add: comp_def)
  show m: "map (\<lambda>w. lookup fs0 (fst w)) (writes st)
           = map (\<lambda>i. lookup fs0 (files ! i)) (fixed_indices fs0 files)"
    unfolding main_result(3) [OF assms] by (simp add: comp_def)
  have "(\<lambda>w. lookup fs0 (fst w)) ` set (writes st)
          = set (map (\<lambda>w. lookup fs0 (fst w)) (writes st))" by simp
  also have "\<dots> = lookup fs0 ` {p \<in> set files. changed fs0 p}"
    unfolding m by (simp add: fixed_files_set)
  finally show "(\<lambda>w. lookup fs0 (fst w)) ` set (writes st)
                  = lookup fs0 ` {p \<in> set files. changed fs0 p}" .
  show "distinct (map (\<lambda>w. lookup fs0 (fst w)) (writes st))"
    unfolding m by (rule fixed_files_distinct)
  show "(p, c) \<in> set (writes st) \<Longrightarrow> p \<in> set files \<and> changed fs0 p \<and> c = new_text fs0 p"
    unfolding main_result(3) [OF assms] by (auto simp: fixed_indices_mem)
qed

lemma decimal_value_snoc: "decimal_value (s @ [d]) = 10 * decimal_value s + (d - 48)"
  by (simp add: decimal_value_def)

lemma str_of_nat_decimal:
  "str_of_nat n \<noteq> [] \<and> list_all is_digit (str_of_nat n) \<and> decimal_value (str_of_nat n) = n
   \<and> (hd (str_of_nat n) = 48 \<longrightarrow> n = 0) \<and> (n = 0 \<longrightarrow> str_of_nat n = [48])"
proof (induction n rule: str_of_nat.induct)
  case (1 n)
  show ?case
  proof (cases "n < 10")
    case True
    then have "str_of_nat n = [48 + n]"
      by (simp add: str_of_nat.simps)
    with True show ?thesis
      by (auto simp: is_digit_def decimal_value_def)
  next
    case False
    let ?q = "str_of_nat (n div 10)"
    from False have s: "str_of_nat n = ?q @ [48 + n mod 10]"
      by (subst str_of_nat.simps) simp
    from 1 [OF False] have
      q: "?q \<noteq> []" "list_all is_digit ?q" "decimal_value ?q = n div 10"
        "hd ?q = 48 \<longrightarrow> n div 10 = 0"
      by simp_all
    from False have "n div 10 \<noteq> 0" by simp
    with q(4) have h: "hd ?q \<noteq> 48" by blast
    have "decimal_value (str_of_nat n) = 10 * (n div 10) + n mod 10"
      unfolding s decimal_value_snoc q(3) by simp
    then have v: "decimal_value (str_of_nat n) = n" by simp
    have d: "list_all is_digit (str_of_nat n)"
      unfolding s using q(2) by (simp add: is_digit_def)
    have "hd (str_of_nat n) = hd ?q"
      unfolding s using q(1) by simp
    with h have "hd (str_of_nat n) \<noteq> 48" by simp
    with v d False s show ?thesis by simp
  qed
qed

lemma target_files_length: "length target_files = 30"
  by (simp add: target_files_def)

lemma target_files_distinct: "distinct target_files"
  by (simp add: target_files_def)

lemma example_transform:
  "transform (py ''super(1);'') = py ''super();\<newline>        setWeight(1);''"
  "transform (py ''super();'') = py ''super();''"
  "transform (py ''super(2, true);'')
     = py ''super();\<newline>        setWeight(2);\<newline>        setEnabled(true);''"
  by (simp_all add: transform_def match_two_def match_one_def bool_lit_def is_numch_def
        is_space_def replace_one_param_def replace_two_params_def)

lemma str_of_nat_digit: "n < 10 \<Longrightarrow> str_of_nat n = [48 + n]"
  by (subst str_of_nat.simps) simp

lemma str_of_nat_more: "10 \<le> n \<Longrightarrow> str_of_nat n = str_of_nat (n div 10) @ [48 + n mod 10]"
  by (subst str_of_nat.simps) simp

lemma example_healthy: "healthy example_fs example_files"
  using example_transform
  by (simp add: healthy_def example_files_def example_fs_def changed_def)

lemma example_nth:
  "example_files ! 0 = py ''a''" "example_files ! Suc 0 = py ''b''"
  "example_files ! 2 = py ''c''" "example_files ! 3 = py ''l''" "example_files ! 4 = py ''e''"
  by (simp_all add: example_files_def)

lemma example_outcomes:
  "outcome_at example_fs example_files 0 = Fixed"
  "outcome_at example_fs example_files (Suc 0) = Skipped"
  "outcome_at example_fs example_files 2 = Unchanged"
  "outcome_at example_fs example_files 3 = Unchanged"
  "outcome_at example_fs example_files 4 = Fixed"
  using example_transform
  by (simp_all add: outcome_at_def example_files_def example_fs_def)

lemma example_changed_set:
  "lookup example_fs ` {p \<in> set example_files. changed example_fs p} = {Some 0, Some 2}"
proof -
  have "{p \<in> set example_files. changed example_fs p} = {py ''a'', py ''l'', py ''e''}"
    using example_transform
    by (auto simp: example_files_def example_fs_def changed_def)
  then show ?thesis
    by (simp add: example_fs_def)
qed

lemma example_changed_files:
  "card (lookup example_fs ` {p \<in> set example_files. changed example_fs p}) = 2"
  by (simp add: example_changed_set)

lemma all_fixed:
  assumes "distinct (map (lookup fs0) files)" "\<forall>p\<in>set files. changed fs0 p"
  shows "length (fixed_indices fs0 files) = length files"
proof -
  from assms(2) have "{p \<in> set files. changed fs0 p} = set files" by blast
  then have "lookup fs0 ` {p \<in> set files. changed fs0 p} = set (map (lookup fs0) files)"
    by simp
  then show ?thesis
    using distinct_card [OF assms(1)] by (simp add: fixed_indices_card)
qed

lemma many_lookup: "p \<in> set many_files \<Longrightarrow> lookup many_fs p = Some (hd p)"
  by (simp add: many_fs_def)

lemma many_changed: "p \<in> set many_files \<Longrightarrow> changed many_fs p"
  using example_transform(1)
  by (simp add: changed_def many_fs_def)

lemma many_healthy: "healthy many_fs many_files"
  unfolding healthy_def
proof (intro ballI allI impI)
  fix p k
  assume "p \<in> set many_files" "lookup many_fs p = Some k"
  show "contents (node_of many_fs k) \<noteq> None \<and>
        (changed many_fs p \<longrightarrow> writable (node_of many_fs k))"
    by (simp add: many_fs_def)
qed

lemma many_fixed: "length (fixed_indices many_fs many_files) = 12"
proof -
  have "map (lookup many_fs) many_files = map (\<lambda>p. Some (hd p)) many_files"
    by (rule map_cong [OF refl]) (rule many_lookup)
  also have "distinct \<dots>"
    by (simp add: many_files_def)
  finally have "distinct (map (lookup many_fs) many_files)" .
  from all_fixed [OF this] many_changed show ?thesis
    by (simp add: many_files_def)
qed

section \<open>The claims about the transformation\<close>

text \<open>
  C1. Wherever a file content holds \<open>super(2.5, true);\<close>, the transformation puts the three
  statements \<open>super();\<close>, \<open>setWeight(2.5);\<close> and \<open>setEnabled(true);\<close> in its place, in this
  order and with the fixed indentation; the text before and the text after are
  transformed on their own. The rewriting is done by the two-argument rule, and the
  one-argument rule copies the three statements unchanged.
\<close>

theorem two_argument_occurrence:
  "transform (pre @ py ''super(2.5, true);'' @ post)
     = transform pre
       @ py ''super();\<newline>        setWeight(2.5);\<newline>        setEnabled(true);''
       @ transform post
   \<and> sub_two (pre @ py ''super(2.5, true);'' @ post)
     = sub_two pre
       @ py ''super();\<newline>        setWeight(2.5);\<newline>        setEnabled(true);''
       @ sub_two post
   \<and> sub_one (py ''super();\<newline>        setWeight(2.5);\<newline>        setEnabled(true);'' @ rest)
     = py ''super();\<newline>        setWeight(2.5);\<newline>        setEnabled(true);'' @ sub_one rest"
proof -
  have w: "py ''2.5'' \<noteq> []" "\<forall>c\<in>set (py ''2.5''). is_numch c"
    and ws: "\<forall>c\<in>set (py '' ''). is_space c" "\<forall>c\<in>set []. is_space c"
    and e: "py ''true'' = py ''true'' \<or> py ''true'' = py ''false''"
    by (simp_all add: is_numch_def is_space_def)
  show ?thesis
    using transform_two_occurrence [OF w ws e, of pre post]
      sub_two_two_occurrence [OF w ws e, of pre post]
      sub_one_replace_two [OF w(2) e, of rest]
    by (simp add: replace_two_params_def)
qed

text \<open>
  C2. Wherever a file content holds \<open>super(0.75);\<close>, the transformation puts the two
  statements \<open>super();\<close> and \<open>setWeight(0.75);\<close> in its place; the two-argument rule leaves
  the occurrence as it is.
\<close>

theorem one_argument_occurrence:
  "transform (pre @ py ''super(0.75);'' @ post)
     = transform pre @ py ''super();\<newline>        setWeight(0.75);'' @ transform post
   \<and> sub_two (pre @ py ''super(0.75);'' @ post)
     = sub_two pre @ py ''super(0.75);'' @ sub_two post"
proof -
  have w: "py ''0.75'' \<noteq> []" "\<forall>c\<in>set (py ''0.75''). is_numch c"
    by (simp_all add: is_numch_def)
  show ?thesis
    using transform_one_occurrence [OF w, of pre post] sub_two_one_occurrence [OF w(2), of pre post]
    by (simp add: replace_one_param_def)
qed

text \<open>
  C3. The transformation is idempotent: transforming a transformed content changes
  nothing, because a transformed content holds no match of either pattern.
\<close>

theorem transform_idempotent:
  "transform (transform c) = transform c
   \<and> \<not> occurs_two (transform c) \<and> \<not> occurs_one (transform c)"
proof -
  have one: "\<not> occurs_one (sub_one (sub_two c))"
    by (rule sub_one_clean)
  have "\<not> occurs_two (sub_two c)"
    by (rule sub_two_clean)
  then have two: "\<not> occurs_two (sub_one (sub_two c))"
    by (rule sub_one_keeps_clean)
  have "sub_one (sub_two (sub_one (sub_two c))) = sub_one (sub_two c)"
    by (simp only: sub_two_free [OF two] sub_one_free [OF one])
  with one two show ?thesis
    by (simp only: transform_def simp_thms)
qed

text \<open>
  C4, as the specification states it, fails: the class \<open>[0-9.]+\<close> also takes \<open>1.2.3\<close> and
  \<open>..\<close>, which are no numeric literals, and both rules rewrite such calls.
\<close>

theorem weight_grammar_counterexample:
  "match_one (py ''super(1.2.3);'') = Some (py ''1.2.3'', [])
   \<and> \<not> spec_numeric_literal (py ''1.2.3'')
   \<and> transform (py ''super(1.2.3);'') = py ''super();\<newline>        setWeight(1.2.3);''
   \<and> match_two (py ''super(.., true);'') = Some (py ''..'', py ''true'', [])
   \<and> \<not> spec_numeric_literal (py ''..'')
   \<and> transform (py ''super(.., true);'')
       = py ''super();\<newline>        setWeight(..);\<newline>        setEnabled(true);''"
  by (simp add: transform_def match_one_def match_two_def bool_lit_def is_numch_def is_space_def
        spec_numeric_literal_def is_digit_def replace_one_param_def replace_two_params_def)

text \<open>
  C4, amended. The weight captured by either rule is a non-empty string of ASCII digits
  and full stops, in any number and any order; it holds no sign and no exponent letter.
\<close>

theorem weight_grammar:
  "(match_two s = Some (w, e, r) \<longrightarrow>
      w \<noteq> [] \<and> list_all is_numch w \<and> 43 \<notin> set w \<and> 45 \<notin> set w \<and> 101 \<notin> set w \<and> 69 \<notin> set w)
   \<and> (match_one s' = Some (w', r') \<longrightarrow>
      w' \<noteq> [] \<and> list_all is_numch w' \<and> 43 \<notin> set w' \<and> 45 \<notin> set w' \<and> 101 \<notin> set w' \<and> 69 \<notin> set w')"
proof -
  have n: "\<And>v. \<forall>c\<in>set v. is_numch c \<Longrightarrow>
            list_all is_numch v \<and> 43 \<notin> set v \<and> 45 \<notin> set v \<and> 101 \<notin> set v \<and> 69 \<notin> set v"
    by (auto simp: list_all_iff is_numch_def)
  show ?thesis
    using match_two_SomeD [of s w e r] match_one_SomeD [of s' w' r'] n [of w] n [of w']
    by blast
qed

theorem weight_grammar_witness:
  "match_two (py ''super(1.2.3,false);'') = Some (py ''1.2.3'', py ''false'', [])
   \<and> list_all is_numch (py ''1.2.3'')
   \<and> match_one (py ''super(42);'') = Some (py ''42'', [])
   \<and> list_all is_numch (py ''42'')"
  using weight_grammar [of "py ''super(1.2.3,false);''" "py ''1.2.3''" "py ''false''" "[]"
      "py ''super(42);''" "py ''42''" "[]"]
  by (simp add: match_one_def match_two_def bool_lit_def is_numch_def is_space_def)

text \<open>
  C5. A content in which neither pattern occurs is left as it is, character for
  character.
\<close>

theorem non_match_preserved:
  assumes "\<not> occurs_two c" and "\<not> occurs_one c"
  shows "transform c = c"
proof -
  have "sub_two c = c"
    using assms(1) by (rule sub_two_free)
  moreover have "sub_one c = c"
    using assms(2) by (rule sub_one_free)
  ultimately show ?thesis
    by (simp only: transform_def)
qed

theorem non_match_preserved_witness:
  "\<not> occurs_two (py ''super(someVariable); super(); run(1.5);'')
   \<and> \<not> occurs_one (py ''super(someVariable); super(); run(1.5);'')
   \<and> transform (py ''super(someVariable); super(); run(1.5);'')
       = py ''super(someVariable); super(); run(1.5);''"
proof -
  have a: "\<not> occurs_two (py ''super(someVariable); super(); run(1.5);'')"
    by (simp add: match_none match_two_def is_numch_def)
  have b: "\<not> occurs_one (py ''super(someVariable); super(); run(1.5);'')"
    by (simp add: match_none match_one_def is_numch_def)
  show ?thesis
    using a b non_match_preserved [OF a b] by simp
qed

text \<open>
  C6. The two rules in the other order give the same text for every content, and a
  text that the two-argument pattern matches is not matched by the one-argument pattern.
\<close>

theorem rule_order_irrelevant:
  "transform_reversed c = transform c \<and> (match_two s \<noteq> None \<longrightarrow> match_one s = None)"
  using sub_commute [of c] match_exclusive [of s]
  by (auto simp: transform_reversed_def transform_def)

theorem rule_order_irrelevant_witness:
  "match_two (py ''super(2.5, true);'') \<noteq> None
   \<and> match_one (py ''super(2.5, true);'') = None
   \<and> transform_reversed (py ''super(1);super(2,true);'') = transform (py ''super(1);super(2,true);'')"
proof -
  have a: "match_two (py ''super(2.5, true);'') \<noteq> None"
    by (simp add: match_two_def bool_lit_def is_numch_def is_space_def)
  show ?thesis
    using a rule_order_irrelevant [of "py ''super(1);super(2,true);''" "py ''super(2.5, true);''"]
    by blast
qed

text \<open>
  C10. The two-argument pattern takes white space after the comma and between the
  boolean and the closing parenthesis, so such a call is rewritten; the one-argument
  pattern takes none, so a call with white space between the number and the closing
  parenthesis is copied unchanged by both substitutions and by the transformation.
\<close>

theorem whitespace_tolerance:
  assumes "w \<noteq> []" "\<forall>c\<in>set w. is_numch c"
    and "\<forall>c\<in>set ws1. is_space c" "\<forall>c\<in>set ws2. is_space c"
    and "e = py ''true'' \<or> e = py ''false''"
    and "\<forall>c\<in>set v. is_numch c" and "ws \<noteq> []" "\<forall>c\<in>set ws. is_space c"
  shows "transform (pre @ py ''super('' @ w @ py '','' @ ws1 @ e @ ws2 @ py '');'' @ post)
           = transform pre @ replace_two_params w e @ transform post
         \<and> sub_two (pre @ py ''super('' @ v @ ws @ py '');'' @ post)
           = sub_two pre @ py ''super('' @ v @ ws @ py '');'' @ sub_two post
         \<and> sub_one (pre @ py ''super('' @ v @ ws @ py '');'' @ post)
           = sub_one pre @ py ''super('' @ v @ ws @ py '');'' @ sub_one post
         \<and> transform (pre @ py ''super('' @ v @ ws @ py '');'' @ post)
           = transform pre @ py ''super('' @ v @ ws @ py '');'' @ transform post"
proof -
  have "transform (pre @ py ''super('' @ v @ ws @ py '');'' @ post)
          = transform pre @ py ''super('' @ v @ ws @ py '');'' @ transform post"
    unfolding transform_def
    by (simp only: sub_two_spaced_occurrence [OF assms(6-8)]
          sub_one_spaced_occurrence [OF assms(6-8)])
  then show ?thesis
    using transform_two_occurrence [OF assms(1-5)] sub_two_spaced_occurrence [OF assms(6-8)]
      sub_one_spaced_occurrence [OF assms(6-8)]
    by simp
qed

theorem whitespace_tolerance_witness:
  "transform (py ''super(2.5, true );'')
     = py ''super();\<newline>        setWeight(2.5);\<newline>        setEnabled(true);''
   \<and> sub_two (py ''super(0.75 );'') = py ''super(0.75 );''
   \<and> sub_one (py ''super(0.75 );'') = py ''super(0.75 );''
   \<and> transform (py ''super(0.75 );'') = py ''super(0.75 );''"
proof -
  have h: "py ''2.5'' \<noteq> []" "\<forall>c\<in>set (py ''2.5''). is_numch c"
    "\<forall>c\<in>set (py '' ''). is_space c" "\<forall>c\<in>set (py '' ''). is_space c"
    "py ''true'' = py ''true'' \<or> py ''true'' = py ''false''"
    "\<forall>c\<in>set (py ''0.75''). is_numch c" "py '' '' \<noteq> []" "\<forall>c\<in>set (py '' ''). is_space c"
    by (simp_all add: is_numch_def is_space_def)
  show ?thesis
    using whitespace_tolerance [OF h, of "[]" "[]"]
    by (simp add: replace_two_params_def transform_def)
qed

section \<open>The claims about the run\<close>

text \<open>
  C7. A path that names nothing never stops the run: the loop body prints the \<open>SKIP\<close>
  line and changes nothing else. When every listed file that is there can be read and,
  where its content is to change, written, the run ends normally: it prints one line for
  each listed path, the line of a missing path is the \<open>SKIP\<close> line, and the total that
  it prints last is the number of writes, which is the number of files, named by a
  listed path, whose content the transformation changes. A missing file and an unchanged
  file are not counted, and a file listed under two names is counted once.
\<close>

theorem missing_files_skipped:
  "(lookup (fs s) p = None \<longrightarrow>
      process_file p s = Inr (s\<lparr>out := out s @ [py ''SKIP: '' @ p @ py '' not found'']\<rparr>))
   \<and> (healthy fs0 files \<longrightarrow>
      (\<exists>st. main files fs0 = Inr st
        \<and> length (out st) = length files + 1
        \<and> (\<forall>i<length files. out st ! i = outcome_line (outcome_at fs0 files i) (files ! i))
        \<and> (\<forall>i<length files. lookup fs0 (files ! i) = None \<longrightarrow>
              out st ! i = py ''SKIP: '' @ files ! i @ py '' not found'')
        \<and> out st ! length files = py ''\<newline>Total files fixed: '' @ str_of_nat (fixed_count st)
        \<and> fixed_count st = length (writes st)
        \<and> fixed_count st = card (lookup fs0 ` {p \<in> set files. changed fs0 p})))"
proof (intro conjI impI)
  assume "lookup (fs s) p = None"
  then show "process_file p s = Inr (s\<lparr>out := out s @ [py ''SKIP: '' @ p @ py '' not found'']\<rparr>)"
    by (simp add: process_file_def)
next
  assume h: "healthy fs0 files"
  from main_healthy [OF h] obtain st where st: "main files fs0 = Inr st" ..
  note r = main_result [OF st]
  let ?lines = "map (\<lambda>i. outcome_line (outcome_at fs0 files i) (files ! i)) [0..<length files]"
  have len: "length ?lines = length files" by simp
  have a: "length (out st) = length files + 1"
    unfolding r(1) by simp
  have b: "out st ! i = outcome_line (outcome_at fs0 files i) (files ! i)" if "i < length files" for i
    unfolding r(1) using that by (simp add: nth_append)
  have c: "out st ! i = py ''SKIP: '' @ files ! i @ py '' not found''"
    if "i < length files" "lookup fs0 (files ! i) = None" for i
    using b [OF that(1)] that(2) by (simp add: outcome_at_def)
  have d: "out st ! length files = py ''\<newline>Total files fixed: '' @ str_of_nat (fixed_count st)"
    unfolding r(1) r(2) using nth_append_length [of ?lines] by (simp only: len)
  have e: "fixed_count st = length (writes st)"
    unfolding r(2) r(3) by simp
  have f: "fixed_count st = card (lookup fs0 ` {p \<in> set files. changed fs0 p})"
    unfolding r(2) by (rule fixed_indices_card)
  from st a b c d e f
  show "\<exists>st. main files fs0 = Inr st
        \<and> length (out st) = length files + 1
        \<and> (\<forall>i<length files. out st ! i = outcome_line (outcome_at fs0 files i) (files ! i))
        \<and> (\<forall>i<length files. lookup fs0 (files ! i) = None \<longrightarrow>
              out st ! i = py ''SKIP: '' @ files ! i @ py '' not found'')
        \<and> out st ! length files = py ''\<newline>Total files fixed: '' @ str_of_nat (fixed_count st)
        \<and> fixed_count st = length (writes st)
        \<and> fixed_count st = card (lookup fs0 ` {p \<in> set files. changed fs0 p})"
    by blast
qed

theorem missing_files_skipped_witness:
  "process_file (py ''b'') \<lparr>fs = example_fs, out = [], writes = [], fixed_count = 0\<rparr>
     = Inr \<lparr>fs = example_fs, out = [py ''SKIP: b not found''], writes = [], fixed_count = 0\<rparr>
   \<and> (\<exists>st. main example_files example_fs = Inr st
     \<and> length (out st) = 6
     \<and> out st ! 0 = py ''FIXED: a''
     \<and> out st ! 1 = py ''SKIP: b not found''
     \<and> out st ! 2 = py ''NO CHANGE: c''
     \<and> out st ! 3 = py ''NO CHANGE: l''
     \<and> out st ! 4 = py ''FIXED: e''
     \<and> out st ! 5 = py ''\<newline>Total files fixed: 2''
     \<and> fixed_count st = 2
     \<and> length (writes st) = 2)"
proof -
  let ?s = "\<lparr>fs = example_fs, out = [], writes = [], fixed_count = 0\<rparr>"
  note inst = missing_files_skipped [of ?s "py ''b''" example_fs example_files]
  have m: "lookup (fs ?s) (py ''b'') = None"
    by (simp add: example_fs_def)
  have first: "process_file (py ''b'') ?s
     = Inr \<lparr>fs = example_fs, out = [py ''SKIP: b not found''], writes = [], fixed_count = 0\<rparr>"
    using inst [THEN conjunct1, THEN mp, OF m] by simp
  from inst [THEN conjunct2, THEN mp, OF example_healthy] obtain st where
    st: "main example_files example_fs = Inr st" and
    n: "length (out st) = length example_files + 1" and
    l: "\<forall>i<length example_files.
          out st ! i = outcome_line (outcome_at example_fs example_files i) (example_files ! i)" and
    t: "out st ! length example_files
          = py ''\<newline>Total files fixed: '' @ str_of_nat (fixed_count st)" and
    c: "fixed_count st = length (writes st)" and
    d: "fixed_count st = card (lookup example_fs ` {p \<in> set example_files. changed example_fs p})"
    by blast
  have len: "length example_files = 5"
    by (simp add: example_files_def)
  note nth = example_nth
  note o = example_outcomes
  have l0: "out st ! 0 = py ''FIXED: a''"
    using l [rule_format, of 0] by (simp add: len o(1) nth(1))
  have l1: "out st ! 1 = py ''SKIP: b not found''"
    using l [rule_format, of 1] by (simp add: len o(2) nth(2))
  have l2: "out st ! 2 = py ''NO CHANGE: c''"
    using l [rule_format, of 2] by (simp add: len o(3) nth(3))
  have l3: "out st ! 3 = py ''NO CHANGE: l''"
    using l [rule_format, of 3] by (simp add: len o(4) nth(4))
  have l4: "out st ! 4 = py ''FIXED: e''"
    using l [rule_format, of 4] by (simp add: len o(5) nth(5))
  have l6: "length (out st) = 6"
    using n by (simp add: len)
  have cnt: "fixed_count st = 2"
    unfolding d by (simp add: example_changed_files)
  have l5: "out st ! 5 = py ''\<newline>Total files fixed: 2''"
    using t by (simp add: len cnt str_of_nat_digit)
  have wn: "length (writes st) = 2"
    using c cnt by simp
  have "\<exists>st. main example_files example_fs = Inr st
     \<and> length (out st) = 6
     \<and> out st ! 0 = py ''FIXED: a''
     \<and> out st ! 1 = py ''SKIP: b not found''
     \<and> out st ! 2 = py ''NO CHANGE: c''
     \<and> out st ! 3 = py ''NO CHANGE: l''
     \<and> out st ! 4 = py ''FIXED: e''
     \<and> out st ! 5 = py ''\<newline>Total files fixed: 2''
     \<and> fixed_count st = 2
     \<and> length (writes st) = 2"
    by (intro exI [of _ st] conjI) (rule st l0 l1 l2 l3 l4 l5 l6 cnt wn)+
  with first show ?thesis ..
qed

text \<open>
  C8. After a run that ended normally, a file has been written exactly when a listed
  path names it and its transformed content differs from its content; it has been
  written once, through the first listed path that names it, with its whole transformed
  content, which every name of the file then reads. A file whose content the
  transformation leaves as it is, in particular one in which neither pattern occurs, has
  not been written and is the same as before; so is every file that no listed path
  names. The run changes no name.
\<close>

theorem written_iff_changed:
  assumes "main files fs0 = Inr st"
  shows "lookup (fs st) = lookup fs0
      \<and> (\<forall>p c. (p, c) \<in> set (writes st) \<longrightarrow> p \<in> set files \<and> changed fs0 p \<and> c = new_text fs0 p)
      \<and> (\<lambda>w. lookup fs0 (fst w)) ` set (writes st) = lookup fs0 ` {p \<in> set files. changed fs0 p}
      \<and> distinct (map (\<lambda>w. lookup fs0 (fst w)) (writes st))
      \<and> (\<forall>p k c. p \<in> set files \<and> lookup fs0 p = Some k \<and> contents (node_of fs0 k) = Some c
              \<and> transform c \<noteq> c \<longrightarrow>
            (\<exists>q. (q, transform c) \<in> set (writes st) \<and> lookup fs0 q = Some k)
            \<and> node_of (fs st) k = (node_of fs0 k)\<lparr>contents := Some (transform c)\<rparr>)
      \<and> (\<forall>k c. contents (node_of fs0 k) = Some c \<and> transform c = c \<longrightarrow>
            Some k \<notin> (\<lambda>w. lookup fs0 (fst w)) ` set (writes st) \<and> node_of (fs st) k = node_of fs0 k)
      \<and> (\<forall>k c. contents (node_of fs0 k) = Some c \<and> \<not> occurs_two c \<and> \<not> occurs_one c \<longrightarrow>
            Some k \<notin> (\<lambda>w. lookup fs0 (fst w)) ` set (writes st) \<and> node_of (fs st) k = node_of fs0 k)
      \<and> (\<forall>k. Some k \<notin> lookup fs0 ` set files \<longrightarrow>
            Some k \<notin> (\<lambda>w. lookup fs0 (fst w)) ` set (writes st) \<and> node_of (fs st) k = node_of fs0 k)"
proof -
  note w = main_written [OF assms]
  note r = main_result [OF assms]
  let ?written = "(\<lambda>w. lookup fs0 (fst w)) ` set (writes st)"
  have nd: "node_of (fs st) k = (if Some k \<in> lookup fs0 ` set files
              then transformed (node_of fs0 k) else node_of fs0 k)" for k
    unfolding r(5) ..
  have b: "p \<in> set files \<and> changed fs0 p \<and> c = new_text fs0 p" if "(p, c) \<in> set (writes st)" for p c
    using that by (rule w(5))
  have d: "(\<exists>q. (q, transform c) \<in> set (writes st) \<and> lookup fs0 q = Some k)
        \<and> node_of (fs st) k = (node_of fs0 k)\<lparr>contents := Some (transform c)\<rparr>"
    if "p \<in> set files" "lookup fs0 p = Some k" "contents (node_of fs0 k) = Some c"
      "transform c \<noteq> c" for p k c
  proof -
    from that have "changed fs0 p" by (simp add: changed_def)
    with that(1,2) have "Some k \<in> lookup fs0 ` {p \<in> set files. changed fs0 p}" by force
    then have "Some k \<in> ?written" unfolding w(3) .
    then obtain q c' where q: "(q, c') \<in> set (writes st)" "lookup fs0 q = Some k" by force
    from b [OF q(1)] q(2) that(3) have "c' = transform c" by (simp add: new_text_def)
    with q have "\<exists>q. (q, transform c) \<in> set (writes st) \<and> lookup fs0 q = Some k" by blast
    moreover from that(1,2) have "Some k \<in> lookup fs0 ` set files" by force
    then have "node_of (fs st) k = (node_of fs0 k)\<lparr>contents := Some (transform c)\<rparr>"
      using that(3) by (simp add: nd transformed_def)
    ultimately show ?thesis ..
  qed
  have e: "Some k \<notin> ?written \<and> node_of (fs st) k = node_of fs0 k"
    if "contents (node_of fs0 k) = Some c" "transform c = c" for k c
  proof
    show "Some k \<notin> ?written"
    proof
      assume "Some k \<in> ?written"
      then have "Some k \<in> lookup fs0 ` {p \<in> set files. changed fs0 p}" unfolding w(3) .
      then obtain p where "changed fs0 p" "lookup fs0 p = Some k" by force
      with that show False by (simp add: changed_def)
    qed
    show "node_of (fs st) k = node_of fs0 k"
      using transformed_unchanged [OF that] by (simp add: nd)
  qed
  have f: "Some k \<notin> ?written \<and> node_of (fs st) k = node_of fs0 k"
    if "contents (node_of fs0 k) = Some c" "\<not> occurs_two c" "\<not> occurs_one c" for k c
    using e [OF that(1) transform_free [OF that(2,3)]] .
  have g: "Some k \<notin> ?written \<and> node_of (fs st) k = node_of fs0 k"
    if "Some k \<notin> lookup fs0 ` set files" for k
  proof
    show "Some k \<notin> ?written"
      using that unfolding w(3) by blast
    show "node_of (fs st) k = node_of fs0 k"
      using that by (simp add: nd)
  qed
  show ?thesis
  proof (intro conjI)
    show "lookup (fs st) = lookup fs0"
      by (rule r(4))
    show "\<forall>p c. (p, c) \<in> set (writes st) \<longrightarrow> p \<in> set files \<and> changed fs0 p \<and> c = new_text fs0 p"
      using b by blast
    show "?written = lookup fs0 ` {p \<in> set files. changed fs0 p}"
      by (rule w(3))
    show "distinct (map (\<lambda>w. lookup fs0 (fst w)) (writes st))"
      by (rule w(4))
    show "\<forall>p k c. p \<in> set files \<and> lookup fs0 p = Some k \<and> contents (node_of fs0 k) = Some c
              \<and> transform c \<noteq> c \<longrightarrow>
            (\<exists>q. (q, transform c) \<in> set (writes st) \<and> lookup fs0 q = Some k)
            \<and> node_of (fs st) k = (node_of fs0 k)\<lparr>contents := Some (transform c)\<rparr>"
      by (intro allI impI, elim conjE, rule d)
    show "\<forall>k c. contents (node_of fs0 k) = Some c \<and> transform c = c \<longrightarrow>
            Some k \<notin> ?written \<and> node_of (fs st) k = node_of fs0 k"
      by (intro allI impI, elim conjE, rule e)
    show "\<forall>k c. contents (node_of fs0 k) = Some c \<and> \<not> occurs_two c \<and> \<not> occurs_one c \<longrightarrow>
            Some k \<notin> ?written \<and> node_of (fs st) k = node_of fs0 k"
      by (intro allI impI, elim conjE, rule f)
    show "\<forall>k. Some k \<notin> lookup fs0 ` set files \<longrightarrow>
            Some k \<notin> ?written \<and> node_of (fs st) k = node_of fs0 k"
      by (intro allI impI, rule g)
  qed
qed

theorem written_iff_changed_witness:
  "\<exists>st. main example_files example_fs = Inr st
     \<and> (\<lambda>w. lookup example_fs (fst w)) ` set (writes st) = {Some 0, Some 2}
     \<and> (\<exists>q. (q, py ''super();\<newline>        setWeight(1);'') \<in> set (writes st)
            \<and> lookup example_fs q = Some 0)
     \<and> contents (node_of (fs st) 0) = Some (py ''super();\<newline>        setWeight(1);'')
     \<and> node_of (fs st) 1 = node_of example_fs 1
     \<and> distinct (map (\<lambda>w. lookup example_fs (fst w)) (writes st))
     \<and> lookup (fs st) (py ''l'') = Some 0"
proof -
  from main_healthy [OF example_healthy] obtain st where
    st: "main example_files example_fs = Inr st" ..
  note w = written_iff_changed [OF st]
  note w1 = w [THEN conjunct1]
  note w3 = w [THEN conjunct2, THEN conjunct2, THEN conjunct1]
  note w4 = w [THEN conjunct2, THEN conjunct2, THEN conjunct2, THEN conjunct1]
  note w5 = w [THEN conjunct2, THEN conjunct2, THEN conjunct2, THEN conjunct2, THEN conjunct1]
  note w6 = w [THEN conjunct2, THEN conjunct2, THEN conjunct2, THEN conjunct2, THEN conjunct2,
    THEN conjunct1]
  have a: "py ''a'' \<in> set example_files" "lookup example_fs (py ''a'') = Some 0"
      "contents (node_of example_fs 0) = Some (py ''super(1);'')"
      "contents (node_of example_fs 1) = Some (py ''super();'')"
    by (simp_all add: example_files_def example_fs_def)
  have p: "(\<lambda>w. lookup example_fs (fst w)) ` set (writes st) = {Some 0, Some 2}"
    unfolding w3 by (rule example_changed_set)
  have five: "(\<exists>q. (q, transform (py ''super(1);'')) \<in> set (writes st)
                  \<and> lookup example_fs q = Some 0)
      \<and> node_of (fs st) 0 = (node_of example_fs 0)\<lparr>contents := Some (transform (py ''super(1);''))\<rparr>"
    using w5 [rule_format, of "py ''a''" 0 "py ''super(1);''"] a example_transform by simp
  note five = five [unfolded example_transform]
  have q: "\<exists>q. (q, py ''super();\<newline>        setWeight(1);'') \<in> set (writes st)
            \<and> lookup example_fs q = Some 0"
    using five by (rule conjunct1)
  have r: "contents (node_of (fs st) 0) = Some (py ''super();\<newline>        setWeight(1);'')"
    unfolding five [THEN conjunct2] by simp
  have s: "node_of (fs st) 1 = node_of example_fs 1"
    using w6 [rule_format, of 1 "py ''super();''"] a example_transform by simp
  have t: "lookup (fs st) (py ''l'') = Some 0"
    unfolding w1 by (simp add: example_fs_def)
  show ?thesis
    by (intro exI [of _ st] conjI) (rule st w4 p q r s t)+
qed

text \<open>
  C9. After a run that ended normally, the printed lines are one outcome line for each
  listed path, in the order of the list, and then the line of the total, which starts
  with a line break, so that a blank line comes before the words \<open>Total files fixed\<close>. The
  numeral printed is the decimal numeral, without leading zeros, of the number of \<open>FIXED\<close>
  lines, and the files written are the paths of these lines.
\<close>

theorem console_output:
  assumes "main files fs0 = Inr st"
  shows "out st =
           map (\<lambda>i. outcome_line (outcome_at fs0 files i) (files ! i)) [0..<length files]
           @ [py ''\<newline>Total files fixed: '' @
              str_of_nat (length (filter (\<lambda>i. outcome_at fs0 files i = Fixed) [0..<length files]))]
      \<and> console st =
           concat (map (\<lambda>i. outcome_line (outcome_at fs0 files i) (files ! i) @ [10])
             [0..<length files])
           @ [10] @ py ''Total files fixed: '' @
           str_of_nat (length (filter (\<lambda>i. outcome_at fs0 files i = Fixed) [0..<length files]))
           @ [10]
      \<and> list_all is_digit
           (str_of_nat (length (filter (\<lambda>i. outcome_at fs0 files i = Fixed) [0..<length files])))
      \<and> decimal_value
           (str_of_nat (length (filter (\<lambda>i. outcome_at fs0 files i = Fixed) [0..<length files])))
         = length (filter (\<lambda>i. outcome_at fs0 files i = Fixed) [0..<length files])
      \<and> (hd (str_of_nat (length (filter (\<lambda>i. outcome_at fs0 files i = Fixed) [0..<length files])))
            = 48 \<longrightarrow>
          str_of_nat (length (filter (\<lambda>i. outcome_at fs0 files i = Fixed) [0..<length files]))
            = [48])
      \<and> map fst (writes st) =
           map (\<lambda>i. files ! i) (filter (\<lambda>i. outcome_at fs0 files i = Fixed) [0..<length files])
      \<and> (\<forall>i<length files. outcome_at fs0 files i = Skipped \<longleftrightarrow> lookup fs0 (files ! i) = None)
      \<and> (\<forall>i<length files. outcome_at fs0 files i = Fixed \<longleftrightarrow>
            changed fs0 (files ! i) \<and>
            lookup fs0 (files ! i) \<notin> set (map (lookup fs0) (take i files)))"
proof -
  note r = main_result [OF assms]
  let ?N = "length (filter (\<lambda>i. outcome_at fs0 files i = Fixed) [0..<length files])"
  have a: "out st =
           map (\<lambda>i. outcome_line (outcome_at fs0 files i) (files ! i)) [0..<length files]
           @ [py ''\<newline>Total files fixed: '' @ str_of_nat ?N]"
    using r(1) unfolding fixed_indices_def .
  have b: "console st =
           concat (map (\<lambda>i. outcome_line (outcome_at fs0 files i) (files ! i) @ [10])
             [0..<length files])
           @ [10] @ py ''Total files fixed: '' @ str_of_nat ?N @ [10]"
    unfolding console_def a by (simp add: comp_def)
  note n = str_of_nat_decimal [of ?N]
  have n1: "list_all is_digit (str_of_nat ?N)" and n2: "decimal_value (str_of_nat ?N) = ?N"
    using n by blast+
  have n3: "hd (str_of_nat ?N) = 48 \<longrightarrow> str_of_nat ?N = [48]"
    using n by blast
  have c: "map fst (writes st) =
           map (\<lambda>i. files ! i) (filter (\<lambda>i. outcome_at fs0 files i = Fixed) [0..<length files])"
    using main_written(1) [OF assms] unfolding fixed_indices_def .
  have d: "outcome_at fs0 files i = Skipped \<longleftrightarrow> lookup fs0 (files ! i) = None" for i
    by (simp add: outcome_at_def split: option.splits)
  have e: "outcome_at fs0 files i = Fixed \<longleftrightarrow>
            changed fs0 (files ! i) \<and>
            lookup fs0 (files ! i) \<notin> set (map (lookup fs0) (take i files))"
    if "i < length files" for i
    using fixed_indices_mem [of i fs0 files] that by (simp add: fixed_indices_def)
  from a b n1 n2 n3 c d e show ?thesis by blast
qed

theorem console_output_witness:
  "(\<exists>st. main example_files example_fs = Inr st
     \<and> out st = [py ''FIXED: a'', py ''SKIP: b not found'', py ''NO CHANGE: c'',
                 py ''NO CHANGE: l'', py ''FIXED: e'', py ''\<newline>Total files fixed: 2'']
     \<and> console st =
         py ''FIXED: a\<newline>SKIP: b not found\<newline>NO CHANGE: c\<newline>NO CHANGE: l\<newline>FIXED: e\<newline>\<newline>Total files fixed: 2\<newline>''
     \<and> map fst (writes st) = [py ''a'', py ''e''])
   \<and> (\<exists>st. main many_files many_fs = Inr st
     \<and> out st ! 12 = py ''\<newline>Total files fixed: 12''
     \<and> decimal_value (py ''12'') = 12)"
proof -
  from main_healthy [OF example_healthy] obtain st where
    st: "main example_files example_fs = Inr st" ..
  note nth = example_nth
  note o = example_outcomes
  have n: "[0..<length example_files] = [0, 1, 2, 3, 4]"
    by (simp add: example_files_def upt_rec)
  have s: "str_of_nat (Suc (Suc 0)) = py ''2''"
    by (simp add: str_of_nat_digit)
  note co = console_output [OF st, unfolded n]
  have x: "out st = [py ''FIXED: a'', py ''SKIP: b not found'', py ''NO CHANGE: c'',
                 py ''NO CHANGE: l'', py ''FIXED: e'', py ''\<newline>Total files fixed: 2'']"
    unfolding co [THEN conjunct1] by (simp add: o nth s)
  have y: "console st =
         py ''FIXED: a\<newline>SKIP: b not found\<newline>NO CHANGE: c\<newline>NO CHANGE: l\<newline>FIXED: e\<newline>\<newline>Total files fixed: 2\<newline>''"
    unfolding co [THEN conjunct2, THEN conjunct1] by (simp add: o nth s)
  have z: "map fst (writes st) = [py ''a'', py ''e'']"
    unfolding co [THEN conjunct2, THEN conjunct2, THEN conjunct2, THEN conjunct2, THEN conjunct2,
      THEN conjunct1]
    by (simp add: o nth)
  have one: "\<exists>st. main example_files example_fs = Inr st
     \<and> out st = [py ''FIXED: a'', py ''SKIP: b not found'', py ''NO CHANGE: c'',
                 py ''NO CHANGE: l'', py ''FIXED: e'', py ''\<newline>Total files fixed: 2'']
     \<and> console st =
         py ''FIXED: a\<newline>SKIP: b not found\<newline>NO CHANGE: c\<newline>NO CHANGE: l\<newline>FIXED: e\<newline>\<newline>Total files fixed: 2\<newline>''
     \<and> map fst (writes st) = [py ''a'', py ''e'']"
    by (intro exI [of _ st] conjI) (rule st x y z)+
  from main_healthy [OF many_healthy] obtain st2 where
    st2: "main many_files many_fs = Inr st2" ..
  note co2 = console_output [OF st2]
  have len: "length many_files = 12"
    by (simp add: many_files_def)
  have cnt: "length (filter (\<lambda>i. outcome_at many_fs many_files i = Fixed) [0..<length many_files]) = 12"
    using many_fixed by (simp add: fixed_indices_def)
  have t12: "str_of_nat 12 = py ''12''"
    by (simp add: str_of_nat_digit str_of_nat_more)
  have "out st2 ! 12 = py ''\<newline>Total files fixed: 12''"
    unfolding co2 [THEN conjunct1] cnt by (simp add: nth_append len t12)
  moreover have "decimal_value (py ''12'') = 12"
    using co2 [THEN conjunct2, THEN conjunct2, THEN conjunct2, THEN conjunct1]
    unfolding cnt t12 .
  ultimately have two: "\<exists>st. main many_files many_fs = Inr st
     \<and> out st ! 12 = py ''\<newline>Total files fixed: 12''
     \<and> decimal_value (py ''12'') = 12"
    using st2 by (intro exI [of _ st2] conjI)
  from one two show ?thesis ..
qed

end
